theory Spec2Isabelle
  imports Complex_Main "HOL-Library.Word" "HOL-Library.Log_Nat"
begin

unbundle bit_operations_syntax

section \<open>JavaScript numbers and typed arrays\<close>

text \<open>
  A JavaScript number is a finite value, one of the two infinities, or NaN. The finite
  values that occur here are Float32Array elements and their products with the 16-bit
  scale factors; a 24-bit significand times a 15- or 16-bit constant fits the 53-bit
  significand of a double, so these products are exact and finite numbers are modelled
  as rationals. Both zeros are \<open>Fin 0\<close>. Where a result need not be exact (a quotient,
  a difference, a time multiplied by a sample rate) it is rounded to the nearest double
  explicitly.
\<close>

datatype jsnum = Fin rat | PosInf | NegInf | NaN

datatype js_error =
    RangeError
  | IndexSizeError
  | NotSupportedError
  | InvalidAccessError
  | TypeError

text \<open>\<open>Math.min\<close> and \<open>Math.max\<close>: NaN if either argument is NaN.\<close>

fun math_min :: "jsnum \<Rightarrow> jsnum \<Rightarrow> jsnum" where
  "math_min NaN _ = NaN"
| "math_min _ NaN = NaN"
| "math_min NegInf _ = NegInf"
| "math_min _ NegInf = NegInf"
| "math_min PosInf y = y"
| "math_min x PosInf = x"
| "math_min (Fin a) (Fin b) = Fin (min a b)"

fun math_max :: "jsnum \<Rightarrow> jsnum \<Rightarrow> jsnum" where
  "math_max NaN _ = NaN"
| "math_max _ NaN = NaN"
| "math_max PosInf _ = PosInf"
| "math_max _ PosInf = PosInf"
| "math_max NegInf y = y"
| "math_max x NegInf = x"
| "math_max (Fin a) (Fin b) = Fin (max a b)"

text \<open>\<open>Math.abs\<close>.\<close>

fun math_abs :: "jsnum \<Rightarrow> jsnum" where
  "math_abs (Fin a) = Fin \<bar>a\<bar>"
| "math_abs PosInf = PosInf"
| "math_abs NegInf = PosInf"
| "math_abs NaN = NaN"

text \<open>The operators \<open>+\<close>, \<open>*\<close>, \<open><\<close> and \<open>>\<close> on numbers.\<close>

fun js_add :: "jsnum \<Rightarrow> jsnum \<Rightarrow> jsnum" where
  "js_add NaN _ = NaN"
| "js_add _ NaN = NaN"
| "js_add PosInf NegInf = NaN"
| "js_add NegInf PosInf = NaN"
| "js_add PosInf _ = PosInf"
| "js_add _ PosInf = PosInf"
| "js_add NegInf _ = NegInf"
| "js_add _ NegInf = NegInf"
| "js_add (Fin a) (Fin b) = Fin (a + b)"

fun js_mul :: "jsnum \<Rightarrow> jsnum \<Rightarrow> jsnum" where
  "js_mul NaN _ = NaN"
| "js_mul _ NaN = NaN"
| "js_mul (Fin a) (Fin b) = Fin (a * b)"
| "js_mul (Fin a) PosInf = (if a = 0 then NaN else if 0 < a then PosInf else NegInf)"
| "js_mul (Fin a) NegInf = (if a = 0 then NaN else if 0 < a then NegInf else PosInf)"
| "js_mul PosInf (Fin b) = (if b = 0 then NaN else if 0 < b then PosInf else NegInf)"
| "js_mul NegInf (Fin b) = (if b = 0 then NaN else if 0 < b then NegInf else PosInf)"
| "js_mul PosInf PosInf = PosInf"
| "js_mul NegInf NegInf = PosInf"
| "js_mul PosInf NegInf = NegInf"
| "js_mul NegInf PosInf = NegInf"

fun js_lt :: "jsnum \<Rightarrow> jsnum \<Rightarrow> bool" where
  "js_lt NaN _ = False"
| "js_lt _ NaN = False"
| "js_lt (Fin a) (Fin b) = (a < b)"
| "js_lt NegInf NegInf = False"
| "js_lt NegInf _ = True"
| "js_lt _ NegInf = False"
| "js_lt PosInf _ = False"
| "js_lt _ PosInf = True"

definition js_gt :: "jsnum \<Rightarrow> jsnum \<Rightarrow> bool" where
  "js_gt x y = js_lt y x"

definition js_le :: "jsnum \<Rightarrow> jsnum \<Rightarrow> bool" where
  "js_le x y \<longleftrightarrow> x \<noteq> NaN \<and> y \<noteq> NaN \<and> \<not> js_lt y x"

text \<open>
  Rounding to the nearest value of a binary floating-point format, ties to the even
  significand, on a positive rational: \<open>p\<close> is the number of fraction bits of the
  format and \<open>emin\<close> its least normal exponent (52 and \<open>-1022\<close> for a double, 23 and
  \<open>-126\<close> for a float). The exponent is not bounded above, so a value beyond the
  format's range rounds to a power of two that the callers test for.
\<close>

definition round_half_even :: "rat \<Rightarrow> int" where
  "round_half_even x =
     (let f = \<lfloor>x\<rfloor>; r = x - of_int f
      in if r < 1 / 2 then f else if 1 / 2 < r then f + 1 else if even f then f else f + 1)"

definition floor_log2 :: "rat \<Rightarrow> int" where
  "floor_log2 q =
     (case quotient_of q of (a, b) \<Rightarrow>
        let d = bitlen a - bitlen b in if 2 powi d \<le> q then d else d - 1)"

definition round_to_precision :: "nat \<Rightarrow> int \<Rightarrow> rat \<Rightarrow> rat" where
  "round_to_precision p emin a =
     (let e = max (floor_log2 a) emin - int p;
          m = round_half_even (a / 2 powi e)
      in of_int m * 2 powi e)"

text \<open>The double nearest to a rational: the result of an arithmetic operation whose
  exact value is that rational.\<close>

definition round_to_double :: "rat \<Rightarrow> jsnum" where
  "round_to_double q =
     (if q = 0 then Fin 0
      else let r = round_to_precision 52 (- 1022) \<bar>q\<bar>
           in if 2 ^ 1024 \<le> r then (if 0 < q then PosInf else NegInf)
              else Fin (if 0 < q then r else - r))"


text \<open>The operators \<open>/\<close> and \<open>-\<close> on numbers, with the rounding of the result.\<close>

fun js_div :: "jsnum \<Rightarrow> jsnum \<Rightarrow> jsnum" where
  "js_div NaN _ = NaN"
| "js_div _ NaN = NaN"
| "js_div (Fin a) (Fin b) =
     (if b = 0 then (if a = 0 then NaN else if 0 < a then PosInf else NegInf)
      else round_to_double (a / b))"
| "js_div (Fin a) _ = Fin 0"
| "js_div PosInf (Fin b) = (if 0 \<le> b then PosInf else NegInf)"
| "js_div NegInf (Fin b) = (if 0 \<le> b then NegInf else PosInf)"
| "js_div _ _ = NaN"


text \<open>\<open>Math.ceil\<close> and \<open>Math.floor\<close>.\<close>

fun math_ceil :: "jsnum \<Rightarrow> jsnum" where
  "math_ceil (Fin q) = Fin (of_int \<lceil>q\<rceil>)"
| "math_ceil x = x"


text \<open>Truncation toward zero, the first step of every conversion to an integer type.\<close>

definition trunc :: "rat \<Rightarrow> int" where
  "trunc q = (if q < 0 then - \<lfloor>- q\<rfloor> else \<lfloor>q\<rfloor>)"

text \<open>\<open>x | 0\<close> (ToInt32): NaN and the infinities give 0, a finite value is truncated
  and wrapped to a signed 32-bit integer.\<close>

fun to_int32 :: "jsnum \<Rightarrow> int" where
  "to_int32 (Fin q) = sint (word_of_int (trunc q) :: 32 word)"
| "to_int32 _ = 0"

text \<open>The conversion of an argument declared \<open>unsigned long\<close> (ToUint32): NaN and the
  infinities give 0, a finite value is truncated and reduced modulo \<open>2^32\<close>.\<close>

fun to_uint32 :: "jsnum \<Rightarrow> nat" where
  "to_uint32 (Fin q) = nat (trunc q mod 2 ^ 32)"
| "to_uint32 _ = 0"

text \<open>The conversion of an argument or attribute declared \<open>float\<close>: a TypeError for
  NaN, for an infinity and for a value that rounds, as a float, to \<open>2^128\<close> or
  \<open>-2^128\<close>; the nearest float otherwise.\<close>

fun to_float :: "jsnum \<Rightarrow> js_error + jsnum" where
  "to_float (Fin q) =
     (let r = round_to_precision 23 (- 126) \<bar>q\<bar>
      in if 2 ^ 128 \<le> r then Inl TypeError else Inr (Fin (if 0 \<le> q then r else - r)))"
| "to_float _ = Inl TypeError"

text \<open>Storing a number into an \<open>Int16Array\<close> element (ToInt16).\<close>

fun to_int16 :: "jsnum \<Rightarrow> 16 word" where
  "to_int16 (Fin q) = word_of_int (trunc q)"
| "to_int16 _ = 0"

text \<open>Reading a typed array by index: \<open>undefined\<close> beyond the end, never a fault.\<close>

definition typed_get :: "jsnum list \<Rightarrow> nat \<Rightarrow> jsnum option" where
  "typed_get xs i = (if i < length xs then Some (xs ! i) else None)"

text \<open>\<open>v || 0\<close> for a number or \<open>undefined\<close>: \<open>undefined\<close>, NaN and zero are
  falsy and give 0.\<close>

fun or_zero :: "jsnum option \<Rightarrow> jsnum" where
  "or_zero None = Fin 0"
| "or_zero (Some NaN) = Fin 0"
| "or_zero (Some x) = x"

text \<open>\<open>target.set(source, offset)\<close> on typed arrays: a RangeError when the offset is
  negative or the source does not fit.\<close>

definition typed_set :: "jsnum list \<Rightarrow> jsnum list \<Rightarrow> int \<Rightarrow> js_error + jsnum list" where
  "typed_set target source offset =
     (if offset < 0 \<or> nat offset + length source > length target then Inl RangeError
      else Inr (take (nat offset) target @ source @
                drop (nat offset + length source) target))"

text \<open>\<open>array.subarray(begin, end)\<close>: a negative index counts from the end, and both
  indices are clamped to the array.\<close>

definition relative_index :: "int \<Rightarrow> nat \<Rightarrow> nat" where
  "relative_index k len = (if k < 0 then nat (max (int len + k) 0) else min (nat k) len)"

definition subarray :: "jsnum list \<Rightarrow> int \<Rightarrow> int \<Rightarrow> jsnum list" where
  "subarray xs b e =
     (let from = relative_index b (length xs); upto = relative_index e (length xs)
      in take (upto - from) (drop from xs))"



section \<open>Audio buffers\<close>

text \<open>
  An \<open>AudioBuffer\<close>: its sample rate (in whole Hz) and one Float32Array per channel.
  \<open>numberOfChannels\<close> and \<open>length\<close> are read off the channel arrays.
\<close>

record AudioBuffer =
  sampleRate :: nat
  channelData :: "jsnum list list"

definition numberOfChannels :: "AudioBuffer \<Rightarrow> nat" where
  "numberOfChannels b = length (channelData b)"

definition buffer_length :: "AudioBuffer \<Rightarrow> nat" where
  "buffer_length b = (case channelData b of [] \<Rightarrow> 0 | ch # _ \<Rightarrow> length ch)"

text \<open>What the platform guarantees of every AudioBuffer it hands out: at least one
  channel, at least one frame, all channels of the same length, a positive rate.\<close>

definition valid_buffer :: "AudioBuffer \<Rightarrow> bool" where
  "valid_buffer b \<longleftrightarrow>
     channelData b \<noteq> [] \<and> 0 < buffer_length b \<and> 0 < sampleRate b \<and>
     list_all (\<lambda>ch. length ch = buffer_length b) (channelData b)"

text \<open>\<open>audioContext.createBuffer(numberOfChannels, length, sampleRate)\<close>: a zeroed
  buffer, or NotSupportedError for a zero argument. The platform also refuses a channel
  count above its maximum and a sample rate outside the range it supports; every call in
  this program passes the channel count and the sample rate of an AudioBuffer the
  platform has produced, which lie within those limits, so they are left out.\<close>

definition createBuffer :: "nat \<Rightarrow> nat \<Rightarrow> nat \<Rightarrow> js_error + AudioBuffer" where
  "createBuffer nch len rate =
     (if nch = 0 \<or> len = 0 \<or> rate = 0 then Inl NotSupportedError
      else Inr \<lparr>sampleRate = rate, channelData = replicate nch (replicate len (Fin 0))\<rparr>)"

text \<open>\<open>buffer.getChannelData(channel)\<close>: IndexSizeError for a channel the buffer
  does not have.\<close>

definition getChannelData :: "AudioBuffer \<Rightarrow> nat \<Rightarrow> js_error + jsnum list" where
  "getChannelData b channel =
     (if channel < numberOfChannels b then Inr (channelData b ! channel)
      else Inl IndexSizeError)"

text \<open>Sequencing of statements that may throw.\<close>

definition and_then :: "'e + 'a \<Rightarrow> ('a \<Rightarrow> 'e + 'b) \<Rightarrow> 'e + 'b" where
  "and_then r f = (case r of Inl e \<Rightarrow> Inl e | Inr x \<Rightarrow> f x)"

text \<open>
  \<open>new OfflineAudioContext(numberOfChannels, length, sampleRate)\<close>, with the same
  refusals as createBuffer; the length is declared \<open>unsigned long\<close>. What
  \<open>startRendering\<close> resolves to is a buffer of the context's channel count, length and
  sample rate; \<open>rendered c i\<close> is the sample the platform computes for frame \<open>i\<close> of
  channel \<open>c\<close>.
\<close>

record offline_context =
  ctx_channels :: nat
  ctx_length :: nat
  ctx_rate :: nat

definition new_OfflineAudioContext :: "nat \<Rightarrow> jsnum \<Rightarrow> nat \<Rightarrow> js_error + offline_context" where
  "new_OfflineAudioContext nch len rate =
     (if nch = 0 \<or> to_uint32 len = 0 \<or> rate = 0 then Inl NotSupportedError
      else Inr \<lparr>ctx_channels = nch, ctx_length = to_uint32 len, ctx_rate = rate\<rparr>)"

definition startRendering :: "(nat \<Rightarrow> nat \<Rightarrow> jsnum) \<Rightarrow> offline_context \<Rightarrow> AudioBuffer" where
  "startRendering rendered ctx =
     \<lparr>sampleRate = ctx_rate ctx,
      channelData = map (\<lambda>c. map (rendered c) [0..<ctx_length ctx]) [0..<ctx_channels ctx]\<rparr>"

text \<open>
  Every audio node belongs to the context that created it, and \<open>connect\<close> throws
  InvalidAccessError when the destination node was created by another context. The
  program has the shared context that getAudioContext returns and the offline contexts
  it constructs for a rendering.
\<close>

datatype audio_context = SharedContext | OfflineContext

definition connect :: "audio_context \<Rightarrow> audio_context \<Rightarrow> js_error + unit" where
  "connect source_owner destination_owner =
     (if source_owner = destination_owner then Inr () else Inl InvalidAccessError)"

section \<open>The WAV serializer (bufferToWave)\<close>

type_synonym byte = "8 word"

text \<open>The DataView over the output ArrayBuffer, with the write position \<open>pos\<close> that
  the closures \<open>setUint16\<close> and \<open>setUint32\<close> advance.\<close>

record writer =
  view :: "byte list"
  pos :: nat

text \<open>\<open>view.setUint16(p, data, true)\<close>, \<open>view.setUint32(p, data, true)\<close> and
  \<open>view.setInt16(p, data, true)\<close>: the value is reduced to the field's width and
  stored low byte first; a write beyond the buffer is a RangeError.\<close>

definition view_set16 :: "byte list \<Rightarrow> nat \<Rightarrow> 16 word \<Rightarrow> js_error + byte list" where
  "view_set16 v p w =
     (if p + 2 \<le> length v
      then Inr (v[p := ucast w, p + 1 := ucast (drop_bit 8 w)])
      else Inl RangeError)"

definition view_set32 :: "byte list \<Rightarrow> nat \<Rightarrow> 32 word \<Rightarrow> js_error + byte list" where
  "view_set32 v p w =
     (if p + 4 \<le> length v
      then Inr (v[p := ucast w, p + 1 := ucast (drop_bit 8 w),
                  p + 2 := ucast (drop_bit 16 w), p + 3 := ucast (drop_bit 24 w)])
      else Inl RangeError)"

definition setUint16 :: "nat \<Rightarrow> writer \<Rightarrow> js_error + writer" where
  "setUint16 data s =
     (case view_set16 (view s) (pos s) (word_of_nat data) of
        Inl e \<Rightarrow> Inl e
      | Inr v \<Rightarrow> Inr \<lparr>view = v, pos = pos s + 2\<rparr>)"

definition setUint32 :: "nat \<Rightarrow> writer \<Rightarrow> js_error + writer" where
  "setUint32 data s =
     (case view_set32 (view s) (pos s) (word_of_nat data) of
        Inl e \<Rightarrow> Inl e
      | Inr v \<Rightarrow> Inr \<lparr>view = v, pos = pos s + 4\<rparr>)"

text \<open>The header writes of bufferToWave, in source order; \<open>len2\<close> is the source's
  \<open>length\<close>, the number of data bytes.\<close>

definition write_header :: "nat \<Rightarrow> nat \<Rightarrow> nat \<Rightarrow> writer \<Rightarrow> js_error + writer" where
  "write_header numOfChan rate len2 s0 =
     and_then (setUint32 0x46464952 s0) (\<lambda>s.
     and_then (setUint32 (len2 + 36) s) (\<lambda>s.
     and_then (setUint32 0x45564157 s) (\<lambda>s.
     and_then (setUint32 0x20746d66 s) (\<lambda>s.
     and_then (setUint32 16 s) (\<lambda>s.
     and_then (setUint16 1 s) (\<lambda>s.
     and_then (setUint16 numOfChan s) (\<lambda>s.
     and_then (setUint32 rate s) (\<lambda>s.
     and_then (setUint32 (rate * 2 * numOfChan) s) (\<lambda>s.
     and_then (setUint16 (numOfChan * 2) s) (\<lambda>s.
     and_then (setUint16 16 s) (\<lambda>s.
     and_then (setUint32 0x61746164 s) (\<lambda>s.
     setUint32 len2 s))))))))))))"

text \<open>The two statements that quantize one sample:
  \<^verbatim>\<open>let sample = Math.max(-1, Math.min(1, channels[i][offset] || 0));\<close>
  \<^verbatim>\<open>sample = (0.5 + sample < 0 ? sample * 32768 : sample * 32767) | 0;\<close>\<close>

definition wav_sample :: "jsnum list \<Rightarrow> nat \<Rightarrow> int" where
  "wav_sample ch offset =
     (let sample = math_max (Fin (- 1)) (math_min (Fin 1) (or_zero (typed_get ch offset)))
      in to_int32 (if js_lt (js_add (Fin (1 / 2)) sample) (Fin 0)
                   then js_mul sample (Fin 32768)
                   else js_mul sample (Fin 32767)))"

text \<open>The inner \<open>for\<close> loop over the channels of one frame.\<close>

function write_frame ::
  "jsnum list list \<Rightarrow> nat \<Rightarrow> nat \<Rightarrow> nat \<Rightarrow> writer \<Rightarrow> js_error + writer" where
  "write_frame channels numOfChan offset i s =
     (if i < numOfChan
      then (case view_set16 (view s) (pos s) (word_of_int (wav_sample (channels ! i) offset)) of
              Inl e \<Rightarrow> Inl e
            | Inr v \<Rightarrow> write_frame channels numOfChan offset (i + 1) \<lparr>view = v, pos = pos s + 2\<rparr>)
      else Inr s)"
  by pat_completeness auto
termination
  by (relation "measure (\<lambda>(channels, numOfChan, offset, i, s). numOfChan - i)") auto

declare write_frame.simps [simp del]

text \<open>The outer \<open>while (pos < 44 + length)\<close> loop. Nothing in the loop itself bounds
  the number of rounds, so it is a partial function: \<open>None\<close> is a run that never ends.\<close>

partial_function (option) write_samples ::
  "jsnum list list \<Rightarrow> nat \<Rightarrow> nat \<Rightarrow> nat \<Rightarrow> writer \<Rightarrow> (js_error + writer) option" where
  "write_samples channels numOfChan limit offset s =
     (if pos s < limit
      then (case write_frame channels numOfChan offset 0 s of
              Inl e \<Rightarrow> Some (Inl e)
            | Inr s' \<Rightarrow> write_samples channels numOfChan limit (offset + 1) s')
      else Some (Inr s))"

text \<open>bufferToWave(abuffer, len): the bytes of the returned Blob.\<close>

definition bufferToWave :: "AudioBuffer \<Rightarrow> nat \<Rightarrow> (js_error + byte list) option" where
  "bufferToWave abuffer len =
     (let numOfChan = numberOfChannels abuffer;
          len2 = len * numOfChan * 2;
          s0 = \<lparr>view = replicate (44 + len2) 0, pos = 0\<rparr>;
          channels = channelData abuffer
      in case write_header numOfChan (sampleRate abuffer) len2 s0 of
           Inl e \<Rightarrow> Some (Inl e)
         | Inr s \<Rightarrow>
             (case write_samples channels numOfChan (44 + len2) 0 s of
                None \<Rightarrow> None
              | Some (Inl e) \<Rightarrow> Some (Inl e)
              | Some (Inr s') \<Rightarrow> Some (Inr (view s'))))"

text \<open>The quantization rule as the specification words it (section 4.2): clamp to
  \<open>[-1, 1]\<close>, scale a negative value by 32768 and any other by 32767, truncate toward
  zero.\<close>

definition spec_quantize :: "rat \<Rightarrow> int" where
  "spec_quantize x =
     (let c = max (- 1) (min 1 x)
      in if c < 0 then trunc (c * 32768) else trunc (c * 32767))"

text \<open>Little-endian layout as the specification words it: byte \<open>i\<close> of a \<open>k\<close>-byte
  field holds digit \<open>i\<close> of the value in base 256.\<close>

definition le_bytes :: "nat \<Rightarrow> nat \<Rightarrow> byte list" where
  "le_bytes k x = map (\<lambda>i. of_nat (x div 256 ^ i mod 256)) [0..<k]"

definition ascii :: "string \<Rightarrow> byte list" where
  "ascii cs = map (\<lambda>c. of_nat (of_char c)) cs"

text \<open>The header of section 4.2 as the specification lists it, for \<open>c\<close> channels at
  rate \<open>r\<close> and \<open>n\<close> frames, and the samples in frame order with the channels of one
  frame side by side, each as a 16-bit two's-complement value, low byte first.\<close>

definition canonical_header :: "nat \<Rightarrow> nat \<Rightarrow> nat \<Rightarrow> byte list" where
  "canonical_header c r n =
     ascii ''RIFF'' @ le_bytes 4 (36 + n * c * 2) @ ascii ''WAVE'' @
     ascii ''fmt '' @ le_bytes 4 16 @ le_bytes 2 1 @ le_bytes 2 c @ le_bytes 4 r @
     le_bytes 4 (r * c * 2) @ le_bytes 2 (c * 2) @ le_bytes 2 16 @
     ascii ''data'' @ le_bytes 4 (n * c * 2)"

definition interleaved :: "(nat \<Rightarrow> nat \<Rightarrow> int) \<Rightarrow> nat \<Rightarrow> nat \<Rightarrow> byte list" where
  "interleaved sample_at c n =
     concat (map (\<lambda>frame. concat (map (\<lambda>channel.
        le_bytes 2 (nat (sample_at channel frame mod 65536))) [0..<c])) [0..<n])"

section \<open>Silence removal (processAudio, first stage)\<close>

record segment =
  seg_start :: int
  seg_end :: int

text \<open>The scan of channel 0 (\<open>samples\<close> is the source's \<open>channelData\<close>).
  \<open>segmentStart\<close> is \<open>-1\<close> while no segment is open.\<close>

function find_segments ::
  "jsnum list \<Rightarrow> jsnum \<Rightarrow> int \<Rightarrow> nat \<Rightarrow> int \<Rightarrow> segment list \<Rightarrow> int \<times> segment list" where
  "find_segments samples linearThreshold paddingSamples i segmentStart nonSilentSegments =
     (if i < length samples
      then if js_gt (math_abs (samples ! i)) linearThreshold \<and> segmentStart = - 1
           then find_segments samples linearThreshold paddingSamples (i + 1)
                  (int i) nonSilentSegments
           else if js_lt (math_abs (samples ! i)) linearThreshold \<and> segmentStart \<noteq> - 1
           then find_segments samples linearThreshold paddingSamples (i + 1) (- 1)
                  (nonSilentSegments @
                   [\<lparr>seg_start = max 0 (segmentStart - paddingSamples),
                     seg_end = min (int (length samples)) (int i + paddingSamples)\<rparr>])
           else find_segments samples linearThreshold paddingSamples (i + 1)
                  segmentStart nonSilentSegments
      else (segmentStart, nonSilentSegments))"
  by pat_completeness auto
termination
  by (relation "measure (\<lambda>(samples, t, p, i, s, segs). length samples - i)") auto

declare find_segments.simps [simp del]

text \<open>The scan followed by the closing of a segment still open at the end.\<close>

definition detect_segments :: "jsnum list \<Rightarrow> jsnum \<Rightarrow> int \<Rightarrow> segment list" where
  "detect_segments samples linearThreshold paddingSamples =
     (case find_segments samples linearThreshold paddingSamples 0 (- 1) [] of
        (segmentStart, nonSilentSegments) \<Rightarrow>
          if segmentStart \<noteq> - 1
          then nonSilentSegments @
               [\<lparr>seg_start = segmentStart, seg_end = int (length samples)\<rparr>]
          else nonSilentSegments)"

text \<open>One round of the merge loop: \<open>last\<close> is the final element of
  \<open>mergedSegments\<close>, extended in place or followed by the new segment.\<close>

definition merge_step :: "segment list \<Rightarrow> segment \<Rightarrow> segment list" where
  "merge_step mergedSegments segment =
     (let l = last mergedSegments
      in if seg_start segment < seg_end l
         then butlast mergedSegments @ [l\<lparr>seg_end := max (seg_end l) (seg_end segment)\<rparr>]
         else mergedSegments @ [segment])"

text \<open>The merge of overlapping segments. The source runs it on a non-empty list only;
  the empty list has nothing to merge.\<close>

fun mergeOverlapping :: "segment list \<Rightarrow> segment list" where
  "mergeOverlapping [] = []"
| "mergeOverlapping (first # rest) = foldl merge_step [first] rest"

definition total_length :: "segment list \<Rightarrow> int" where
  "total_length segs = foldl (\<lambda>sum seg. sum + (seg_end seg - seg_start seg)) 0 segs"

text \<open>Copying one segment into every channel of the new buffer at \<open>offset\<close>.\<close>

fun copy_segment ::
  "AudioBuffer \<Rightarrow> AudioBuffer \<Rightarrow> segment \<Rightarrow> int \<Rightarrow> nat list \<Rightarrow> js_error + AudioBuffer" where
  "copy_segment newBuffer currentBuffer seg offset [] = Inr newBuffer"
| "copy_segment newBuffer currentBuffer seg offset (c # cs) =
     and_then (getChannelData currentBuffer c) (\<lambda>originalChannel.
     and_then (getChannelData newBuffer c) (\<lambda>target.
     and_then (typed_set target (subarray originalChannel (seg_start seg) (seg_end seg)) offset)
       (\<lambda>written.
          copy_segment (newBuffer\<lparr>channelData := (channelData newBuffer)[c := written]\<rparr>)
            currentBuffer seg offset cs)))"

fun copy_segments ::
  "AudioBuffer \<Rightarrow> AudioBuffer \<Rightarrow> nat \<Rightarrow> int \<Rightarrow> segment list \<Rightarrow> js_error + AudioBuffer" where
  "copy_segments newBuffer currentBuffer nch offset [] = Inr newBuffer"
| "copy_segments newBuffer currentBuffer nch offset (seg # segs) =
     and_then (copy_segment newBuffer currentBuffer seg offset [0..<nch]) (\<lambda>nb.
       copy_segments nb currentBuffer nch (offset + (seg_end seg - seg_start seg)) segs)"

text \<open>\<open>Math.floor(0.1 * sampleRate)\<close>. The double nearest to 0.1 exceeds one tenth by
  less than one part in \<open>10^16\<close>, so for a whole sample rate the product never reaches
  the next integer and the floor is the integer quotient by ten.\<close>

definition paddingSamples :: "nat \<Rightarrow> int" where
  "paddingSamples rate = int (rate div 10)"

text \<open>The silence-removal stage. \<open>linearThreshold\<close> is the value of
  \<open>Math.pow(10, silenceThreshold / 20)\<close>, a positive number.\<close>

definition removeSilence :: "rat \<Rightarrow> AudioBuffer \<Rightarrow> js_error + AudioBuffer" where
  "removeSilence linearThreshold currentBuffer =
     and_then (getChannelData currentBuffer 0) (\<lambda>samples.
       let nonSilentSegments =
             detect_segments samples (Fin linearThreshold)
               (paddingSamples (sampleRate currentBuffer))
       in if length nonSilentSegments > 0
          then let mergedSegments = mergeOverlapping nonSilentSegments;
                   totalLength = total_length mergedSegments
               in if totalLength > 0
                  then and_then
                         (createBuffer (numberOfChannels currentBuffer) (nat totalLength)
                            (sampleRate currentBuffer))
                         (\<lambda>newBuffer. copy_segments newBuffer currentBuffer
                                         (numberOfChannels currentBuffer) 0 mergedSegments)
                  else createBuffer (numberOfChannels currentBuffer) 1 (sampleRate currentBuffer)
          else createBuffer (numberOfChannels currentBuffer) 1 (sampleRate currentBuffer))"

section \<open>Normalization (processAudio, second stage)\<close>

text \<open>The peak scan over all channels and frames, starting from \<open>maxAmp = 0\<close>.\<close>

definition peak :: "AudioBuffer \<Rightarrow> jsnum" where
  "peak b =
     foldl (\<lambda>maxAmp ch. foldl (\<lambda>maxAmp x. math_max maxAmp (math_abs x)) maxAmp ch)
       (Fin 0) (channelData b)"

text \<open>
  The audio graph: the gain node is made by \<open>audioContext.createGain()\<close>, on the shared
  context, the buffer source and the destination by the \<open>OfflineAudioContext\<close>
  constructed for the rendering. \<open>gainNode.gain.setValueAtTime(gain, 0)\<close> takes the
  gain as a \<open>float\<close> and a start time that must not be negative.
\<close>

definition setValueAtTime :: "jsnum \<Rightarrow> jsnum \<Rightarrow> js_error + jsnum" where
  "setValueAtTime val startTime =
     and_then (to_float val) (\<lambda>v.
       if js_le (Fin 0) startTime then Inr v else Inl RangeError)"

text \<open>What rendering source, gain and destination in a row yields: every sample times
  the gain.\<close>

definition render_gain :: "jsnum \<Rightarrow> AudioBuffer \<Rightarrow> AudioBuffer" where
  "render_gain gain b = b\<lparr>channelData := map (map (\<lambda>x. js_mul x gain)) (channelData b)\<rparr>"

text \<open>The normalization stage, statement by statement: the peak scan, the gain, the
  gain node and its value, the offline context, the source, the two connections and
  the rendering.\<close>

definition normalize :: "AudioBuffer \<Rightarrow> js_error + AudioBuffer" where
  "normalize currentBuffer =
     (let maxAmp = peak currentBuffer
      in if js_gt maxAmp (Fin 0) \<and> js_lt maxAmp (Fin 1)
         then let gain = js_div (Fin 1) maxAmp;
                  gainNode = SharedContext
              in and_then (setValueAtTime gain (Fin 0)) (\<lambda>gainValue.
                 and_then (new_OfflineAudioContext (numberOfChannels currentBuffer)
                             (Fin (of_nat (buffer_length currentBuffer)))
                             (sampleRate currentBuffer)) (\<lambda>offlineCtx.
                 let source = OfflineContext;
                     destination = OfflineContext
                 in and_then (connect source gainNode) (\<lambda>_.
                    and_then (connect gainNode destination) (\<lambda>_.
                    Inr (render_gain gainValue currentBuffer)))))
         else Inr currentBuffer)"

section \<open>The speed change (handleApplyAndDownload)\<close>

text \<open>
  The final pass on the processed buffer: an offline context of
  \<open>Math.ceil(processedBuffer.length / playbackSpeed)\<close> frames, a buffer source whose
  \<open>playbackRate.value\<close>, a \<open>float\<close> attribute, is set to the speed, source and
  destination both of that context, and the rendering. \<open>playbackSpeed\<close> is the finite
  number the slider holds.
\<close>

definition changeSpeed ::
  "(nat \<Rightarrow> nat \<Rightarrow> jsnum) \<Rightarrow> AudioBuffer \<Rightarrow> rat \<Rightarrow> js_error + AudioBuffer" where
  "changeSpeed rendered processedBuffer playbackSpeed =
     and_then (new_OfflineAudioContext (numberOfChannels processedBuffer)
                 (math_ceil (js_div (Fin (of_nat (buffer_length processedBuffer)))
                               (Fin playbackSpeed)))
                 (sampleRate processedBuffer)) (\<lambda>offlineCtx.
     let source = OfflineContext;
         destination = OfflineContext
     in and_then (to_float (Fin playbackSpeed)) (\<lambda>playbackRate.
        and_then (connect source destination) (\<lambda>_.
        Inr (startRendering rendered offlineCtx))))"

section \<open>The MP3 path (Converter.handleConvert)\<close>

text \<open>\<^verbatim>\<open>pcm[i] = Math.max(-1, Math.min(1, channelData[i])) * 32767;\<close> with the store into
  an Int16Array.\<close>

definition mp3_sample :: "jsnum \<Rightarrow> 16 word" where
  "mp3_sample x = to_int16 (js_mul (math_max (Fin (- 1)) (math_min (Fin 1) x)) (Fin 32767))"

text \<open>The 16-bit arrays handed to the encoder: left and right for two channels,
  channel 0 alone otherwise.\<close>

definition mp3_pcm :: "AudioBuffer \<Rightarrow> js_error + 16 word list list" where
  "mp3_pcm audioBuffer =
     (if numberOfChannels audioBuffer = 2
      then and_then (getChannelData audioBuffer 0) (\<lambda>left.
           and_then (getChannelData audioBuffer 1) (\<lambda>right.
           Inr [map mp3_sample left,
                map (\<lambda>i. if i < length left then mp3_sample (right ! i) else 0)
                  [0..<length right]]))
      else and_then (getChannelData audioBuffer 0) (\<lambda>samples.
           Inr [map mp3_sample samples]))"

section \<open>Merging (Merger.handleMerge and ClipList.handleMergeSelected)\<close>
















section \<open>Notions used in the proofs\<close>

text \<open>A segment list in which every segment ends no later than the next one starts.\<close>

fun separated :: "segment list \<Rightarrow> bool" where
  "separated [] = True"
| "separated [x] = True"
| "separated (x # y # zs) = (seg_end x \<le> seg_start y \<and> separated (y # zs))"

text \<open>The buffer of one silent frame with the channel count and rate of \<open>b\<close>.\<close>

definition one_silent_frame :: "AudioBuffer \<Rightarrow> AudioBuffer" where
  "one_silent_frame b =
     \<lparr>sampleRate = sampleRate b, channelData = replicate (numberOfChannels b) [Fin 0]\<rparr>"

text \<open>The bytes one 16-bit and one 32-bit store leave in the view, a writer whose view
  holds \<open>pre\<close> followed by \<open>n\<close> untouched bytes, and the bytes the header writes, one
  frame and all frames leave.\<close>

definition le16 :: "16 word \<Rightarrow> byte list" where
  "le16 w = [ucast w, ucast (drop_bit 8 w)]"

definition le32 :: "32 word \<Rightarrow> byte list" where
  "le32 w = [ucast w, ucast (drop_bit 8 w), ucast (drop_bit 16 w), ucast (drop_bit 24 w)]"

definition filled :: "byte list \<Rightarrow> nat \<Rightarrow> writer" where
  "filled pre n = \<lparr>view = pre @ replicate n 0, pos = length pre\<rparr>"

definition header_bytes :: "nat \<Rightarrow> nat \<Rightarrow> nat \<Rightarrow> byte list" where
  "header_bytes c r len2 =
     le32 (word_of_nat 0x46464952) @ le32 (word_of_nat (len2 + 36)) @
     le32 (word_of_nat 0x45564157) @ le32 (word_of_nat 0x20746d66) @
     le32 (word_of_nat 16) @ le16 (word_of_nat 1) @ le16 (word_of_nat c) @
     le32 (word_of_nat r) @ le32 (word_of_nat (r * 2 * c)) @ le16 (word_of_nat (c * 2)) @
     le16 (word_of_nat 16) @ le32 (word_of_nat 0x61746164) @ le32 (word_of_nat len2)"

definition frame_bytes :: "jsnum list list \<Rightarrow> nat \<Rightarrow> nat list \<Rightarrow> byte list" where
  "frame_bytes channels offset cs =
     concat (map (\<lambda>i. le16 (word_of_int (wav_sample (channels ! i) offset))) cs)"

definition sample_bytes :: "jsnum list list \<Rightarrow> nat \<Rightarrow> byte list" where
  "sample_bytes channels len =
     concat (map (\<lambda>f. frame_bytes channels f [0..<length channels]) [0..<len])"


section \<open>The merge of segments\<close>

lemma merge_step_snoc:
  "merge_step (ys @ [l]) s =
     (if seg_start s < seg_end l
      then ys @ [l\<lparr>seg_end := max (seg_end l) (seg_end s)\<rparr>]
      else ys @ [l, s])"
  by (simp add: merge_step_def)

lemma separated_snoc_iff:
  "separated (ys @ [l]) \<longleftrightarrow> separated ys \<and> (ys \<noteq> [] \<longrightarrow> seg_end (last ys) \<le> seg_start l)"
  by (induction ys rule: separated.induct) auto

lemma separated_snoc2:
  "separated (ys @ [l]) \<Longrightarrow> seg_end l \<le> seg_start s \<Longrightarrow> separated (ys @ [l, s])"
  by (induction ys rule: separated.induct) auto

lemma separated_suffix: "separated (ys @ zs) \<Longrightarrow> separated zs"
proof (induction ys rule: separated.induct)
  case (3 x y zs')
  then show ?case by simp
next
  case (2 x)
  then show ?case by (cases zs) auto
qed simp

lemma foldl_merge_step_nonempty: "foldl merge_step (ys @ [l]) xs \<noteq> []"
proof (induction xs arbitrary: ys l)
  case (Cons s xs)
  show ?case
  proof (cases "seg_start s < seg_end l")
    case True
    then show ?thesis using Cons.IH [of ys "l\<lparr>seg_end := max (seg_end l) (seg_end s)\<rparr>"]
      by (simp add: merge_step_snoc)
  next
    case False
    then show ?thesis using Cons.IH [of "ys @ [l]" s]
      by (simp add: merge_step_snoc)
  qed
qed simp

lemma foldl_merge_step_separated:
  "separated (ys @ [l]) \<Longrightarrow> separated (foldl merge_step (ys @ [l]) xs)"
proof (induction xs arbitrary: ys l)
  case (Cons s xs)
  show ?case
  proof (cases "seg_start s < seg_end l")
    case True
    have "separated (ys @ [l\<lparr>seg_end := max (seg_end l) (seg_end s)\<rparr>])"
      using Cons.prems by (simp add: separated_snoc_iff)
    then show ?thesis using True Cons.IH by (simp add: merge_step_snoc)
  next
    case False
    have "separated (ys @ [l, s])"
      using Cons.prems False by (simp add: separated_snoc2)
    then show ?thesis using False Cons.IH [of "ys @ [l]" s] by (simp add: merge_step_snoc)
  qed
qed simp

lemma foldl_merge_step_fixed:
  "separated (ys @ l # xs) \<Longrightarrow> foldl merge_step (ys @ [l]) xs = ys @ l # xs"
proof (induction xs arbitrary: ys l)
  case (Cons s xs)
  from Cons.prems have "separated (l # s # xs)" by (rule separated_suffix)
  then have "\<not> seg_start s < seg_end l" by simp
  moreover have "separated ((ys @ [l]) @ s # xs)" using Cons.prems by simp
  ultimately show ?case using Cons.IH [of "ys @ [l]" s] by (simp add: merge_step_snoc)
qed simp

lemma mergeOverlapping_separated: "separated (mergeOverlapping s)"
proof (cases s)
  case (Cons f rest)
  then show ?thesis using foldl_merge_step_separated [of "[]" f rest] by simp
qed simp

lemma mergeOverlapping_fixed: "separated s \<Longrightarrow> mergeOverlapping s = s"
proof (cases s)
  case (Cons f rest)
  assume "separated s"
  then show ?thesis using Cons foldl_merge_step_fixed [of "[]" f rest] by simp
qed simp

text \<open>
  Claim C8. Merging is idempotent on every segment list, sorted or not: the merge leaves
  a list in which each segment ends no later than the next starts, and on such a list no
  round of the loop extends a segment, so a second merge returns its input.
\<close>

theorem mergeOverlapping_idempotent:
  "mergeOverlapping (mergeOverlapping s) = mergeOverlapping s"
  by (rule mergeOverlapping_fixed) (rule mergeOverlapping_separated)

section \<open>Quantization in the WAV serializer\<close>

lemma trunc_neg_half_32767: "trunc (- (32767 / 2)) = - 16383"
  by code_simp

text \<open>
  Claim C1. The specification scales every negative clamped sample by 32768. The source
  tests \<open>0.5 + sample < 0\<close>, so a sample in \<open>[-0.5, 0)\<close> is scaled by 32767: the
  sample \<open>-0.5\<close> is written as \<open>-16383\<close>, where the specified rule gives
  \<open>-16384\<close>.
\<close>

theorem wav_sample_minus_half:
  "wav_sample [Fin (- 1 / 2)] 0 = - 16383 \<and> spec_quantize (- 1 / 2) = - 16384"
proof
  show "wav_sample [Fin (- 1 / 2)] 0 = - 16383"
    by (simp add: wav_sample_def typed_get_def trunc_neg_half_32767)
  show "spec_quantize (- 1 / 2) = - 16384"
    by (simp add: spec_quantize_def trunc_def)
qed

section \<open>Rounding to a floating-point format\<close>

text \<open>The rounded value lies between any two whole numbers that enclose the exact one,
  so a whole number below \<open>2^53\<close> is its own double, and a positive number below
  \<open>2^24\<close> converts to a float.\<close>

lemma round_half_even_bounds: "\<lfloor>x\<rfloor> \<le> round_half_even x \<and> round_half_even x \<le> \<lceil>x\<rceil>"
proof -
  have "round_half_even x = \<lfloor>x\<rfloor> \<or> (round_half_even x = \<lfloor>x\<rfloor> + 1 \<and> 1 / 2 \<le> x - of_int \<lfloor>x\<rfloor>)"
    by (auto simp add: round_half_even_def Let_def)
  then show ?thesis
  proof
    assume "round_half_even x = \<lfloor>x\<rfloor>"
    then show ?thesis by simp
  next
    assume a: "round_half_even x = \<lfloor>x\<rfloor> + 1 \<and> 1 / 2 \<le> x - of_int \<lfloor>x\<rfloor>"
    then have "of_int \<lfloor>x\<rfloor> < x" by linarith
    then have "\<lfloor>x\<rfloor> < \<lceil>x\<rceil>" by (simp add: less_ceiling_iff)
    then show ?thesis using a by simp
  qed
qed

lemma floor_log2_lower: "0 < q \<Longrightarrow> 2 powi floor_log2 q \<le> q"
proof -
  assume q: "0 < q"
  obtain a b where ab: "quotient_of q = (a, b)" by (cases "quotient_of q")
  then have b: "0 < b" and qab: "q = of_int a / of_int b"
    using quotient_of_denom_pos [OF ab] quotient_of_div [OF ab] by simp_all
  then have a: "0 < a" using q by (simp add: zero_less_divide_iff)
  define d where "d = bitlen a - bitlen b"
  show ?thesis
  proof (cases "2 powi d \<le> q")
    case True
    then show ?thesis by (simp add: floor_log2_def ab d_def)
  next
    case False
    have la: "2 ^ nat (bitlen a - 1) \<le> a" using bitlen_bounds [OF a] by simp
    have lb: "b < 2 ^ nat (bitlen b)" using bitlen_bounds [OF b] by simp
    have pa: "1 \<le> bitlen a" using a by (simp add: bitlen_alt_def)
    have pb: "0 \<le> bitlen b" by (rule bitlen_nonneg)
    have "(2::rat) powi (d - 1) = 2 powi (bitlen a - 1) / 2 powi (bitlen b)"
      by (simp add: d_def power_int_diff)
    also have "\<dots> = 2 ^ nat (bitlen a - 1) / 2 ^ nat (bitlen b)"
      using pa pb by (simp add: power_int_def)
    also have "\<dots> \<le> of_int a / of_int b"
    proof -
      have f1: "(2::rat) ^ nat (bitlen a - 1) \<le> of_int a"
        using la by (metis of_int_le_iff of_int_numeral of_int_power)
      have f2: "(of_int b :: rat) \<le> 2 ^ nat (bitlen b)"
        using lb by (metis less_imp_le of_int_le_iff of_int_numeral of_int_power)
      have f3: "(0::rat) < of_int b" using b by simp
      have f0: "(0::rat) \<le> of_int a" using a by simp
      show ?thesis by (rule frac_le [OF f0 f1 f3 f2])
    qed
    finally have "(2::rat) powi (d - 1) \<le> q" by (simp only: qab)
    moreover have "floor_log2 q = d - 1"
      using False by (simp add: floor_log2_def ab d_def)
    ultimately show ?thesis by simp
  qed
qed

lemma two_powi_nonpos: "e \<le> 0 \<Longrightarrow> (2::rat) powi e = 1 / of_int (2 ^ nat (- e))"
  by (cases "e = 0") (simp_all add: power_int_def power_one_over inverse_eq_divide)

lemma floor_log2_below:
  assumes "0 < q" and "q < 2 ^ n"
  shows "floor_log2 q < int n"
proof (rule ccontr)
  assume "\<not> floor_log2 q < int n"
  then have "int n \<le> floor_log2 q" by simp
  then have "(2::rat) powi int n \<le> 2 powi floor_log2 q"
    by (intro power_int_increasing) simp_all
  also have "\<dots> \<le> q" using assms(1) by (rule floor_log2_lower)
  finally show False using assms(2) by simp
qed

lemma round_to_precision_between:
  assumes q: "0 < q" and N: "of_int N \<le> q" and M: "q \<le> of_int M" and small: "q < 2 ^ Suc p"
    and emin: "emin \<le> int p"
  shows "of_int N \<le> round_to_precision p emin q \<and> round_to_precision p emin q \<le> of_int M \<and>
         (2 powi (emin - int p) \<le> q \<longrightarrow> 0 < round_to_precision p emin q)"
proof -
  define e where "e = max (floor_log2 q) emin - int p"
  define P :: int where "P = 2 ^ nat (- e)"
  define x where "x = q / 2 powi e"
  define m where "m = round_half_even x"
  define r :: rat where "r = of_int m * 2 powi e"
  have rr: "round_to_precision p emin q = r"
    by (simp add: round_to_precision_def Let_def e_def x_def m_def r_def)
  have "floor_log2 q < int (Suc p)" using q small by (rule floor_log2_below)
  then have e0: "e \<le> 0" using emin by (simp add: e_def)
  show ?thesis
  proof -
    have P: "0 < P" by (simp add: P_def)
    have pe: "(2::rat) powi e = 1 / of_int P" using e0 by (simp add: two_powi_nonpos P_def)
    have x: "x = q * of_int P" by (simp add: x_def pe)
    have "of_int (N * P) \<le> x" using N P by (simp add: x mult_right_mono)
    then have lo: "N * P \<le> \<lfloor>x\<rfloor>" by (simp only: le_floor_iff)
    have "x \<le> of_int (M * P)" using M P by (simp add: x mult_right_mono)
    then have hi: "\<lceil>x\<rceil> \<le> M * P" by (simp only: ceiling_le_iff)
    have mb: "\<lfloor>x\<rfloor> \<le> m" "m \<le> \<lceil>x\<rceil>"
      using round_half_even_bounds [of x] by (simp_all add: m_def)
    have r: "r = of_int m / of_int P" by (simp add: r_def pe)
    have "N * P \<le> m" using lo mb(1) by linarith
    then have "(of_int (N * P) :: rat) \<le> of_int m" by (simp only: of_int_le_iff)
    then have rN: "of_int N \<le> r" using P by (simp add: r pos_le_divide_eq)
    have "m \<le> M * P" using hi mb(2) by linarith
    then have "(of_int m :: rat) \<le> of_int (M * P)" by (simp only: of_int_le_iff)
    then have rM: "r \<le> of_int M" using P by (simp add: r pos_divide_le_eq)
    have rpos: "0 < r" if tiny: "2 powi (emin - int p) \<le> q"
    proof -
      have "(2::rat) powi e \<le> q"
      proof (cases "emin \<le> floor_log2 q")
        case True
        then have "e \<le> floor_log2 q" by (simp add: e_def)
        then have "(2::rat) powi e \<le> 2 powi floor_log2 q"
          by (intro power_int_increasing) simp_all
        also have "\<dots> \<le> q" using q by (rule floor_log2_lower)
        finally show ?thesis .
      next
        case False
        then have "e = emin - int p" by (simp add: e_def)
        then show ?thesis using tiny by simp
      qed
      then have "of_int 1 \<le> x" using P by (simp add: x pe pos_divide_le_eq)
      then have "1 \<le> \<lfloor>x\<rfloor>" by (simp only: le_floor_iff)
      then have "0 < m" using mb(1) by linarith
      then show ?thesis using P by (simp add: r)
    qed
    show ?thesis unfolding rr using rN rM rpos by blast
  qed
qed

lemma round_to_double_between:
  assumes q: "0 < q" and N: "of_int N \<le> q" and M: "q \<le> of_int M" and small: "q < 2 ^ 53"
    and tiny: "1 / 2 ^ 1074 \<le> q"
  shows "\<exists>d. round_to_double q = Fin d \<and> 0 < d \<and> of_int N \<le> d \<and> d \<le> of_int M"
proof -
  define r where "r = round_to_precision 52 (- 1022) q"
  have s: "q < 2 ^ Suc 52" using small by simp
  have "(2::rat) powi (- 1022 - int 52) = 1 / 2 ^ 1074"
    by (simp add: power_int_def power_one_over inverse_eq_divide)
  then have t: "2 powi (- 1022 - int 52) \<le> q" using tiny by simp
  have b: "of_int N \<le> r" "r \<le> of_int M" "0 < r"
    using round_to_precision_between [OF q N M s, of "- 1022"] t by (simp_all add: r_def)
  have "q \<le> of_int (2 ^ 53)" using small by simp
  then have c: "\<lceil>q\<rceil> \<le> 2 ^ 53" by (simp only: ceiling_le_iff)
  have "r < 2 ^ 1024"
  proof -
    have "r \<le> of_int \<lceil>q\<rceil>"
      using round_to_precision_between [OF q N le_of_int_ceiling s, of "- 1022"]
      by (simp add: r_def)
    also have "(of_int \<lceil>q\<rceil> :: rat) \<le> of_int (2 ^ 53)" using c by (simp only: of_int_le_iff)
    also have "(of_int (2 ^ 53) :: rat) < 2 ^ 1024" by simp
    finally show ?thesis .
  qed
  then have "round_to_double q = Fin r"
    using q by (simp add: round_to_double_def Let_def r_def [symmetric] abs_of_pos not_le)
  then show ?thesis using b by blast
qed

lemma round_to_double_whole:
  assumes "0 \<le> n" and "n < 2 ^ 53"
  shows "round_to_double (of_int n) = Fin (of_int n)"
proof (cases "n = 0")
  case True
  then show ?thesis by (simp add: round_to_double_def)
next
  case False
  then have n: "1 \<le> n" using assms(1) by simp
  then have q: "(0::rat) < of_int n" by simp
  have "(of_int n :: rat) < of_int (2 ^ 53)" using assms(2) by (simp only: of_int_less_iff)
  then have s: "(of_int n :: rat) < 2 ^ 53" by simp
  have "(1::rat) / 2 ^ 1074 \<le> 1" by simp
  also have "(1::rat) \<le> of_int n" using n by simp
  finally have t: "(1::rat) / 2 ^ 1074 \<le> of_int n" .
  obtain d where "round_to_double (of_int n) = Fin d" "of_int n \<le> d" "d \<le> of_int n"
    using round_to_double_between [OF q order_refl order_refl s t] by blast
  then show ?thesis by simp
qed

lemma to_float_ok:
  assumes "0 < q" and "q < 2 ^ 24"
  shows "\<exists>v. to_float (Fin q) = Inr (Fin v) \<and> of_int \<lfloor>q\<rfloor> \<le> v \<and> v \<le> of_int \<lceil>q\<rceil>"
proof -
  define r where "r = round_to_precision 23 (- 126) q"
  have s: "q < 2 ^ Suc 23" using assms(2) by simp
  have b: "of_int \<lfloor>q\<rfloor> \<le> r" "r \<le> of_int \<lceil>q\<rceil>"
    using round_to_precision_between [OF assms(1) of_int_floor_le le_of_int_ceiling s, of "- 126"]
    by (simp_all add: r_def)
  have "q \<le> of_int (2 ^ 24)" using assms(2) by simp
  then have c: "\<lceil>q\<rceil> \<le> 2 ^ 24" by (simp only: ceiling_le_iff)
  have "r \<le> of_int \<lceil>q\<rceil>" by (rule b(2))
  also have "(of_int \<lceil>q\<rceil> :: rat) \<le> of_int (2 ^ 24)" using c by (simp only: of_int_le_iff)
  also have "(of_int (2 ^ 24) :: rat) < 2 ^ 128" by simp
  finally have "r < 2 ^ 128" .
  then have "to_float (Fin q) = Inr (Fin r)"
    using assms(1) by (simp add: Let_def r_def [symmetric] abs_of_pos not_le)
  then show ?thesis using b by blast
qed

lemma to_float_2: "to_float (Fin 2) = Inr (Fin 2)"
proof -
  obtain v where "to_float (Fin 2) = Inr (Fin v)" "of_int \<lfloor>2::rat\<rfloor> \<le> v" "v \<le> of_int \<lceil>2::rat\<rceil>"
    using to_float_ok [of 2] by auto
  then show ?thesis by simp
qed

lemma js_div_1_half: "js_div (Fin 1) (Fin (1 / 2)) = Fin 2"
  using round_to_double_whole [of 2] by simp





lemma trunc_small: "trunc 0 = 0" "trunc 1 = 1" "trunc 2 = 2" "trunc 3 = 3"
  by (simp_all add: trunc_def)

lemma trunc_of_int: "trunc (of_int c) = c"
  by (simp add: trunc_def)

section \<open>Quantization in the MP3 path\<close>

lemma trunc_scaled_bounds:
  assumes "- 1 \<le> c" "c \<le> 1" "0 \<le> k"
  shows "- k \<le> trunc (c * of_int k) \<and> trunc (c * of_int k) \<le> k"
proof (cases "c * of_int k < 0")
  case True
  have "- c \<le> 1" using assms by simp
  then have "(- c) * of_int k \<le> 1 * of_int k"
    using assms(3) by (intro mult_right_mono) simp_all
  then have "- (c * of_int k) \<le> of_int k" by simp
  then have a: "\<lfloor>- (c * of_int k)\<rfloor> \<le> k" by (simp add: floor_le_iff)
  have b: "0 \<le> \<lfloor>- (c * of_int k)\<rfloor>" using True by simp
  have "trunc (c * of_int k) = - \<lfloor>- (c * of_int k)\<rfloor>" using True by (simp add: trunc_def)
  then show ?thesis using a b assms(3) by linarith
next
  case False
  have "c * of_int k \<le> 1 * of_int k"
    using assms by (intro mult_right_mono) simp_all
  then have a: "\<lfloor>c * of_int k\<rfloor> \<le> k" by (simp add: floor_le_iff)
  have b: "0 \<le> \<lfloor>c * of_int k\<rfloor>" using False by simp
  have "trunc (c * of_int k) = \<lfloor>c * of_int k\<rfloor>" using False by (simp add: trunc_def)
  then show ?thesis using a b assms(3) by linarith
qed

lemma sint16_small: "- 32768 \<le> k \<Longrightarrow> k \<le> 32767 \<Longrightarrow> sint (word_of_int k :: 16 word) = k"
  by (simp add: sint_sbintrunc' signed_take_bit_int_eq_self)

lemma sint32_small: "- 32768 \<le> k \<Longrightarrow> k \<le> 32767 \<Longrightarrow> sint (word_of_int k :: 32 word) = k"
  by (simp add: sint_sbintrunc' signed_take_bit_int_eq_self)

lemma clamp_bounds: "- 1 \<le> max (- 1) (min 1 (x::rat)) \<and> max (- 1) (min 1 x) \<le> 1"
  by simp

lemma mp3_sample_Fin:
  "sint (mp3_sample (Fin x)) = trunc (max (- 1) (min 1 x) * 32767)"
proof -
  have "- 32767 \<le> trunc (max (- 1) (min 1 x) * of_int 32767) \<and>
        trunc (max (- 1) (min 1 x) * of_int 32767) \<le> 32767"
    by (rule trunc_scaled_bounds) simp_all
  then show ?thesis by (simp add: mp3_sample_def sint16_small)
qed

lemma mp3_sample_special:
  "mp3_sample NaN = 0" "mp3_sample PosInf = 32767" "mp3_sample NegInf = - 32767"
  by (simp_all add: mp3_sample_def trunc_def)

lemma valid_buffer_channel_length:
  "valid_buffer b \<Longrightarrow> c < numberOfChannels b \<Longrightarrow> length (channelData b ! c) = buffer_length b"
  by (simp add: valid_buffer_def numberOfChannels_def list_all_length)

lemma valid_buffer_has_channel: "valid_buffer b \<Longrightarrow> 0 < numberOfChannels b"
  by (simp add: valid_buffer_def numberOfChannels_def)

lemma trunc_whole: "trunc (- 32767) = - 32767"
  by (simp add: trunc_def)

lemma mp3_sample_value:
  "sint (mp3_sample x) =
     (case x of Fin q \<Rightarrow> trunc (max (- 1) (min 1 q) * 32767)
      | PosInf \<Rightarrow> 32767 | NegInf \<Rightarrow> - 32767 | NaN \<Rightarrow> 0)"
  by (cases x) (simp_all add: mp3_sample_Fin mp3_sample_special)

lemma trunc_half_32767: "trunc (32767 / 2) = 16383"
  by code_simp

text \<open>
  Claim C4, as the source has it, for a buffer of one or two channels. The MP3 path
  hands the encoder one 16-bit array per channel, each of the buffer's length, and every
  sample in it is the channel's sample clamped to \<open>[-1, 1]\<close>, scaled by 32767 whatever
  its sign and truncated toward zero on the store into the Int16Array; an infinite sample
  is clamped like any other, and NaN, which the clamp leaves as it is, is stored as 0.
\<close>

theorem mp3_pcm_quantization:
  assumes "valid_buffer b" and "numberOfChannels b \<le> 2"
    and "c < numberOfChannels b" and "i < buffer_length b"
  shows "\<exists>pcm. mp3_pcm b = Inr pcm \<and> length pcm = numberOfChannels b \<and>
           length (pcm ! c) = buffer_length b \<and>
           sint (pcm ! c ! i) =
             (case channelData b ! c ! i of
                Fin x \<Rightarrow> trunc (max (- 1) (min 1 x) * 32767)
              | PosInf \<Rightarrow> 32767
              | NegInf \<Rightarrow> - 32767
              | NaN \<Rightarrow> 0)"
proof (cases "numberOfChannels b = 2")
  case True
  then have len: "length (channelData b ! 0) = buffer_length b"
      "length (channelData b ! 1) = buffer_length b"
    using assms(1) by (simp_all add: valid_buffer_channel_length)
  have pcm: "mp3_pcm b = Inr [map mp3_sample (channelData b ! 0),
      map (\<lambda>i. if i < length (channelData b ! 0) then mp3_sample (channelData b ! 1 ! i) else 0)
        [0..<length (channelData b ! 1)]]"
    using True by (simp add: mp3_pcm_def getChannelData_def and_then_def)
  from assms(3) True have "c = 0 \<or> c = 1" by auto
  then show ?thesis
  proof
    assume "c = 0"
    then show ?thesis using pcm len assms(4) True by (simp add: mp3_sample_value)
  next
    assume "c = 1"
    then show ?thesis using pcm len assms(4) True by (simp add: mp3_sample_value)
  qed
next
  case False
  have pos: "0 < numberOfChannels b" using assms(1) by (rule valid_buffer_has_channel)
  then have one: "numberOfChannels b = 1" using False assms(2) by simp
  then have c: "c = 0" using assms(3) by simp
  have pcm: "mp3_pcm b = Inr [map mp3_sample (channelData b ! 0)]"
    using False pos by (simp add: mp3_pcm_def getChannelData_def and_then_def)
  have "length (channelData b ! 0) = buffer_length b"
    using assms(1) pos by (rule valid_buffer_channel_length)
  then show ?thesis using pcm c assms(4) one by (simp add: mp3_sample_value)
qed

theorem mp3_pcm_quantization_witness:
  "valid_buffer \<lparr>sampleRate = 44100, channelData = [[Fin (- 1), NaN], [Fin (1 / 2), PosInf]]\<rparr> \<and>
   numberOfChannels \<lparr>sampleRate = 44100, channelData = [[Fin (- 1), NaN], [Fin (1 / 2), PosInf]]\<rparr> = 2 \<and>
   buffer_length \<lparr>sampleRate = 44100, channelData = [[Fin (- 1), NaN], [Fin (1 / 2), PosInf]]\<rparr> = 2 \<and>
   (\<exists>pcm. mp3_pcm \<lparr>sampleRate = 44100, channelData = [[Fin (- 1), NaN], [Fin (1 / 2), PosInf]]\<rparr>
            = Inr pcm \<and>
      length pcm = 2 \<and> length (pcm ! 1) = 2 \<and> sint (pcm ! 1 ! 0) = 16383)"
  using mp3_pcm_quantization
    [of "\<lparr>sampleRate = 44100, channelData = [[Fin (- 1), NaN], [Fin (1 / 2), PosInf]]\<rparr>" 1 0]
  by (simp add: valid_buffer_def buffer_length_def numberOfChannels_def trunc_half_32767
      numeral_2_eq_2)

text \<open>
  Claim C4, as stated for every buffer and with the rule of the WAV serializer's
  specification, which scales a negative sample by 32768: the sample \<open>-1\<close> is handed
  to the encoder as \<open>-32767\<close>, not \<open>-32768\<close>; and of a buffer of three channels
  the samples of the second and third channel are not quantized at all.
\<close>

theorem mp3_pcm_not_spec_quantize:
  "mp3_pcm \<lparr>sampleRate = 44100, channelData = [[Fin (- 1)]]\<rparr> = Inr [[- 32767]] \<and>
   spec_quantize (- 1) = - 32768 \<and>
   (- 32767 :: 16 word) \<noteq> word_of_int (spec_quantize (- 1)) \<and>
   mp3_pcm \<lparr>sampleRate = 44100, channelData = [[Fin 0], [Fin 1], [Fin 1]]\<rparr> = Inr [[0]]"
  by (simp add: mp3_pcm_def numberOfChannels_def getChannelData_def and_then_def
      mp3_sample_def spec_quantize_def trunc_def)

section \<open>Segments found by the silence detector\<close>

text \<open>
  Claim C3. A segment closed inside the loop starts \<open>paddingSamples\<close> before its first
  loud frame. The segment still open when the loop ends is pushed with its raw start:
  at 8000 Hz (a padding of 800 frames) a silent frame followed by a loud last frame gives
  the segment \<open>{1, 2}\<close>, where the claim has the start \<open>max(0, 1 - 800) = 0\<close>; with one
  more silent frame after it the same sound gives \<open>{0, 3}\<close>.
\<close>

theorem detect_segments_open_tail_unpadded:
  "detect_segments [Fin 0, Fin (1 / 2)] (Fin (1 / 10)) (paddingSamples 8000)
     = [\<lparr>seg_start = 1, seg_end = 2\<rparr>] \<and>
   max 0 (1 - paddingSamples 8000) = 0 \<and>
   detect_segments [Fin 0, Fin (1 / 2), Fin 0] (Fin (1 / 10)) (paddingSamples 8000)
     = [\<lparr>seg_start = 0, seg_end = 3\<rparr>]"
  by (simp add: detect_segments_def find_segments.simps paddingSamples_def js_gt_def)

section \<open>Normalization\<close>

text \<open>A buffer that is silent or already at full scale is returned as it is; for any
  other buffer one of the statements of the stage throws.\<close>

lemma normalize_unchanged:
  "\<not> (js_gt (peak b) (Fin 0) \<and> js_lt (peak b) (Fin 1)) \<Longrightarrow> normalize b = Inr b"
  by (auto simp add: normalize_def Let_def)

lemma normalize_quiet_fails:
  assumes "js_gt (peak b) (Fin 0)" and "js_lt (peak b) (Fin 1)"
  shows "normalize b = Inl TypeError \<or> normalize b = Inl RangeError \<or>
         normalize b = Inl NotSupportedError \<or> normalize b = Inl InvalidAccessError"
proof -
  have s: "setValueAtTime g (Fin 0) = Inl TypeError \<or> (\<exists>v. setValueAtTime g (Fin 0) = Inr v)" for g
    by (cases g) (simp_all add: setValueAtTime_def and_then_def Let_def js_le_def)
  have c: "new_OfflineAudioContext n l r = Inl NotSupportedError \<or>
           (\<exists>ctx. new_OfflineAudioContext n l r = Inr ctx)" for n l r
    by (simp add: new_OfflineAudioContext_def)
  show ?thesis
    using assms s [of "js_div (Fin 1) (peak b)"]
      c [of "numberOfChannels b" "Fin (of_nat (buffer_length b))" "sampleRate b"]
    by (auto simp add: normalize_def Let_def connect_def and_then_def)
qed

text \<open>
  Claim C7. For a buffer whose peak lies strictly between 0 and 1 the source connects
  the buffer source of the new offline context to a gain node of the shared context;
  \<open>connect\<close> throws, and no normalized buffer is produced. A mono buffer holding the
  single sample \<open>0.5\<close> has peak \<open>0.5\<close> and ends in InvalidAccessError.
\<close>

theorem normalize_half_fails:
  "peak \<lparr>sampleRate = 44100, channelData = [[Fin (1 / 2)]]\<rparr> = Fin (1 / 2) \<and>
   normalize \<lparr>sampleRate = 44100, channelData = [[Fin (1 / 2)]]\<rparr> = Inl InvalidAccessError"
proof
  show p: "peak \<lparr>sampleRate = 44100, channelData = [[Fin (1 / 2)]]\<rparr> = Fin (1 / 2)"
    by (simp add: peak_def)
  have g: "setValueAtTime (js_div (Fin 1) (Fin (1 / 2))) (Fin 0) = Inr (Fin 2)"
    unfolding js_div_1_half setValueAtTime_def to_float_2 by (simp add: and_then_def js_le_def)
  have c: "new_OfflineAudioContext (numberOfChannels \<lparr>sampleRate = 44100, channelData = [[Fin (1 / 2)]]\<rparr>)
             (Fin (of_nat (buffer_length \<lparr>sampleRate = 44100, channelData = [[Fin (1 / 2)]]\<rparr>)))
             (sampleRate \<lparr>sampleRate = 44100, channelData = [[Fin (1 / 2)]]\<rparr>)
           = Inr \<lparr>ctx_channels = 1, ctx_length = 1, ctx_rate = 44100\<rparr>"
    by (simp add: new_OfflineAudioContext_def numberOfChannels_def buffer_length_def trunc_small)
  show "normalize \<lparr>sampleRate = 44100, channelData = [[Fin (1 / 2)]]\<rparr> = Inl InvalidAccessError"
    unfolding normalize_def Let_def p g c
    by (simp add: js_gt_def connect_def and_then_def)
qed

section \<open>Silence removal on silent input\<close>

lemma find_segments_quiet:
  "list_all (\<lambda>x. \<not> js_gt (math_abs x) t) samples \<Longrightarrow>
   find_segments samples t p i (- 1) segs = (- 1, segs)"
proof (induction "length samples - i" arbitrary: i)
  case 0
  then show ?case by (subst find_segments.simps) simp
next
  case (Suc n)
  then have i: "i < length samples" by simp
  have "\<not> js_gt (math_abs (samples ! i)) t"
    using Suc.prems i by (simp add: list_all_length)
  moreover have "find_segments samples t p (i + 1) (- 1) segs = (- 1, segs)"
    using Suc.hyps(1) [of "i + 1"] Suc.hyps(2) Suc.prems by simp
  ultimately show ?case using i by (subst find_segments.simps) simp
qed

lemma detect_segments_quiet:
  "list_all (\<lambda>x. \<not> js_gt (math_abs x) t) samples \<Longrightarrow> detect_segments samples t p = []"
  by (simp add: detect_segments_def find_segments_quiet)

lemma createBuffer_one:
  "valid_buffer b \<Longrightarrow> createBuffer (numberOfChannels b) (Suc 0) (sampleRate b) = Inr (one_silent_frame b)"
  by (simp add: createBuffer_def valid_buffer_def numberOfChannels_def one_silent_frame_def)

lemma removeSilence_unfold:
  "valid_buffer b \<Longrightarrow>
   removeSilence thr b =
     (let segs = mergeOverlapping (detect_segments (channelData b ! 0) (Fin thr)
                   (paddingSamples (sampleRate b)))
      in if 0 < total_length segs
         then and_then (createBuffer (numberOfChannels b) (nat (total_length segs)) (sampleRate b))
                (\<lambda>newBuffer. copy_segments newBuffer b (numberOfChannels b) 0 segs)
         else Inr (one_silent_frame b))"
proof -
  assume v: "valid_buffer b"
  then have "0 < numberOfChannels b" by (simp add: valid_buffer_def numberOfChannels_def)
  then have g: "getChannelData b 0 = Inr (channelData b ! 0)" by (simp add: getChannelData_def)
  show ?thesis
  proof (cases "detect_segments (channelData b ! 0) (Fin thr) (paddingSamples (sampleRate b)) = []")
    case True
    then show ?thesis using v g
      by (simp add: removeSilence_def and_then_def createBuffer_one total_length_def)
  next
    case False
    then show ?thesis using v g
      by (simp add: removeSilence_def and_then_def createBuffer_one Let_def)
  qed
qed

text \<open>
  Claim C6. On a buffer whose samples are all zero, under any threshold whose linear
  value is not negative (every power of ten is positive), silence removal returns one
  silent frame with the channel count and sample rate of the input; and so it does
  whenever the merged segments cover no frame at all.
\<close>

theorem removeSilence_degenerate:
  assumes "valid_buffer b"
  shows "(list_all (list_all (\<lambda>x. x = Fin 0)) (channelData b) \<and> 0 \<le> thr \<longrightarrow>
            removeSilence thr b = Inr (one_silent_frame b)) \<and>
         (total_length (mergeOverlapping (detect_segments (channelData b ! 0) (Fin thr)
              (paddingSamples (sampleRate b)))) \<le> 0 \<longrightarrow>
            removeSilence thr b = Inr (one_silent_frame b))"
proof (intro conjI impI)
  assume a: "list_all (list_all (\<lambda>x. x = Fin 0)) (channelData b) \<and> 0 \<le> thr"
  have "channelData b \<noteq> []" using assms by (simp add: valid_buffer_def)
  then have z: "list_all (\<lambda>x. x = Fin 0) (channelData b ! 0)"
    using a by (simp add: list_all_length)
  have "\<forall>x \<in> set (channelData b ! 0). \<not> js_gt (math_abs x) (Fin thr)"
  proof
    fix x assume "x \<in> set (channelData b ! 0)"
    then have "x = Fin 0" using z by (simp add: list_all_iff)
    then show "\<not> js_gt (math_abs x) (Fin thr)" using a by (simp add: js_gt_def)
  qed
  then have "list_all (\<lambda>x. \<not> js_gt (math_abs x) (Fin thr)) (channelData b ! 0)"
    by (simp add: list_all_iff)
  then have "detect_segments (channelData b ! 0) (Fin thr) (paddingSamples (sampleRate b)) = []"
    by (rule detect_segments_quiet)
  then show "removeSilence thr b = Inr (one_silent_frame b)"
    using assms by (simp add: removeSilence_unfold total_length_def)
next
  assume "total_length (mergeOverlapping (detect_segments (channelData b ! 0) (Fin thr)
              (paddingSamples (sampleRate b)))) \<le> 0"
  then show "removeSilence thr b = Inr (one_silent_frame b)"
    using assms by (simp add: removeSilence_unfold Let_def)
qed

theorem removeSilence_degenerate_witness:
  "valid_buffer \<lparr>sampleRate = 8000, channelData = [[Fin 0, Fin 0, Fin 0], [Fin 0, Fin 0, Fin 0]]\<rparr> \<and>
   total_length (mergeOverlapping (detect_segments [Fin 0, Fin 0, Fin 0] (Fin (1 / 10))
      (paddingSamples 8000))) = 0 \<and>
   removeSilence (1 / 10) \<lparr>sampleRate = 8000, channelData = [[Fin 0, Fin 0, Fin 0], [Fin 0, Fin 0, Fin 0]]\<rparr>
     = Inr \<lparr>sampleRate = 8000, channelData = [[Fin 0], [Fin 0]]\<rparr>"
  using removeSilence_degenerate
    [of "\<lparr>sampleRate = 8000, channelData = [[Fin 0, Fin 0, Fin 0], [Fin 0, Fin 0, Fin 0]]\<rparr>" "1 / 10"]
  by (simp add: valid_buffer_def buffer_length_def numberOfChannels_def one_silent_frame_def
      detect_segments_def find_segments.simps paddingSamples_def js_gt_def total_length_def numeral_2_eq_2)

section \<open>The bytes of the WAV serializer\<close>

lemma view_set16_append:
  "view_set16 (pre @ a # b # r) (length pre) w = Inr (pre @ le16 w @ r)"
  by (simp add: view_set16_def le16_def list_update_append)

lemma view_set32_append:
  "view_set32 (pre @ a # b # c # d # r) (length pre) w = Inr (pre @ le32 w @ r)"
  by (simp add: view_set32_def le32_def list_update_append)

lemma replicate_2: "2 \<le> n \<Longrightarrow> replicate n x = x # x # replicate (n - 2) x"
proof -
  assume "2 \<le> n"
  then obtain k where "n = Suc (Suc k)" by (auto simp add: le_iff_add numeral_2_eq_2)
  then show ?thesis by simp
qed

lemma replicate_4: "4 \<le> n \<Longrightarrow> replicate n x = x # x # x # x # replicate (n - 4) x"
proof -
  assume "4 \<le> n"
  then obtain k where "n = Suc (Suc (Suc (Suc k)))"
    by (auto simp add: le_iff_add numeral_eq_Suc)
  then show ?thesis by simp
qed

lemma setUint16_filled:
  "2 \<le> n \<Longrightarrow> setUint16 x (filled pre n) = Inr (filled (pre @ le16 (word_of_nat x)) (n - 2))"
  by (simp add: setUint16_def filled_def replicate_2 [of n] view_set16_append le16_def)

lemma setUint32_filled:
  "4 \<le> n \<Longrightarrow> setUint32 x (filled pre n) = Inr (filled (pre @ le32 (word_of_nat x)) (n - 4))"
  by (simp add: setUint32_def filled_def replicate_4 [of n] view_set32_append le32_def)

lemma write_header_filled:
  "write_header c r len2 (filled [] (44 + len2)) = Inr (filled (header_bytes c r len2) len2)"
  by (simp add: write_header_def and_then_def setUint16_filled setUint32_filled header_bytes_def)

lemma length_le16 [simp]: "length (le16 w) = 2"
  by (simp add: le16_def)

lemma length_le32 [simp]: "length (le32 w) = 4"
  by (simp add: le32_def)

lemma length_header_bytes: "length (header_bytes c r len2) = 44"
  by (simp add: header_bytes_def)

lemma write_frame_step:
  "i < c \<Longrightarrow> 2 \<le> n \<Longrightarrow>
   write_frame channels c offset i (filled pre n) =
     write_frame channels c offset (i + 1)
       (filled (pre @ le16 (word_of_int (wav_sample (channels ! i) offset))) (n - 2))"
  by (subst write_frame.simps)
     (simp add: filled_def replicate_2 [of n] view_set16_append)

lemma write_frame_done:
  "c \<le> i \<Longrightarrow> write_frame channels c offset i s = Inr s"
  by (subst write_frame.simps) simp

lemma write_frame_filled:
  "2 * (c - i) \<le> n \<Longrightarrow>
   write_frame channels c offset i (filled pre n) =
     Inr (filled (pre @ frame_bytes channels offset [i..<c]) (n - 2 * (c - i)))"
proof (induction "c - i" arbitrary: i pre n)
  case 0
  then show ?case by (simp add: write_frame_done frame_bytes_def)
next
  case (Suc k)
  then have i: "i < c" and k: "k = c - (i + 1)" and n: "2 \<le> n" "2 * (c - (i + 1)) \<le> n - 2"
    by simp_all
  have up: "[i..<c] = i # [i + 1..<c]" using i by (simp add: upt_conv_Cons)
  have eq: "n - 2 - 2 * (c - (i + 1)) = n - 2 * (c - i)" using i by simp
  have "write_frame channels c offset i (filled pre n) =
        write_frame channels c offset (i + 1)
          (filled (pre @ le16 (word_of_int (wav_sample (channels ! i) offset))) (n - 2))"
    using i n(1) by (rule write_frame_step)
  also have "\<dots> = Inr (filled ((pre @ le16 (word_of_int (wav_sample (channels ! i) offset)))
                      @ frame_bytes channels offset [i + 1..<c]) (n - 2 - 2 * (c - (i + 1))))"
    using k n(2) by (rule Suc.hyps(1))
  also have "\<dots> = Inr (filled (pre @ frame_bytes channels offset [i..<c]) (n - 2 * (c - i)))"
    unfolding eq up by (simp add: frame_bytes_def)
  finally show ?case .
qed

lemma length_frame_bytes [simp]: "length (frame_bytes channels offset cs) = 2 * length cs"
  by (induction cs) (simp_all add: frame_bytes_def)

lemma write_samples_filled:
  assumes c: "0 < c"
  shows "length pre + m * (2 * c) = limit \<Longrightarrow>
         write_samples channels c limit f (filled pre (m * (2 * c))) =
           Some (Inr (filled (pre @ concat (map (\<lambda>f. frame_bytes channels f [0..<c]) [f..<f + m])) 0))"
proof (induction m arbitrary: f pre)
  case 0
  then show ?case by (subst write_samples.simps) (simp add: filled_def)
next
  case (Suc m)
  have lt: "pos (filled pre (Suc m * (2 * c))) < limit"
    using Suc.prems c by (simp add: filled_def)
  have fr: "write_frame channels c f 0 (filled pre (Suc m * (2 * c))) =
            Inr (filled (pre @ frame_bytes channels f [0..<c]) (m * (2 * c)))"
    using write_frame_filled [of c 0 "Suc m * (2 * c)" channels f pre] by simp
  have "length (pre @ frame_bytes channels f [0..<c]) + m * (2 * c) = limit"
    using Suc.prems by simp
  then have ih: "write_samples channels c limit (f + 1)
                   (filled (pre @ frame_bytes channels f [0..<c]) (m * (2 * c))) =
                 Some (Inr (filled ((pre @ frame_bytes channels f [0..<c]) @
                   concat (map (\<lambda>f. frame_bytes channels f [0..<c]) [f + 1..<f + 1 + m])) 0))"
    by (rule Suc.IH)
  have up: "[f..<f + Suc m] = f # [f + 1..<f + 1 + m]"
    by (simp add: upt_conv_Cons)
  have e: "concat (map (\<lambda>f. frame_bytes channels f [0..<c]) [f..<f + Suc m]) =
           frame_bytes channels f [0..<c] @
           concat (map (\<lambda>f. frame_bytes channels f [0..<c]) [f + 1..<f + 1 + m])"
    unfolding up by simp
  show ?case
    by (subst write_samples.simps) (simp only: lt fr if_True sum.case ih e append_assoc)
qed

lemma view_filled_0: "view (filled pre 0) = pre"
  by (simp add: filled_def)

lemma concat_map_Nil: "concat (map (\<lambda>f. []) xs) = []"
  by (induction xs) simp_all

lemma write_samples_no_channels:
  "write_samples channels 0 (length pre) f (filled pre 0) = Some (Inr (filled pre 0))"
  by (subst write_samples.simps) (simp add: filled_def)

lemma bufferToWave_bytes:
  "bufferToWave b len =
     Some (Inr (header_bytes (numberOfChannels b) (sampleRate b) (len * numberOfChannels b * 2)
                @ sample_bytes (channelData b) len))"
proof (cases "numberOfChannels b = 0")
  case True
  then have ch: "channelData b = []" by (simp add: numberOfChannels_def)
  have "write_samples [] 0 (length (header_bytes 0 (sampleRate b) 0)) 0
          (filled (header_bytes 0 (sampleRate b) 0) 0)
        = Some (Inr (filled (header_bytes 0 (sampleRate b) 0) 0))"
    by (rule write_samples_no_channels)
  then have ws: "write_samples [] 0 44 0 (filled (header_bytes 0 (sampleRate b) 0) 0)
        = Some (Inr (filled (header_bytes 0 (sampleRate b) 0) 0))"
    by (simp add: length_header_bytes)
  have h: "write_header 0 (sampleRate b) 0 \<lparr>view = replicate 44 0, pos = 0\<rparr>
           = Inr (filled (header_bytes 0 (sampleRate b) 0) 0)"
    using write_header_filled [of 0 "sampleRate b" 0] by (simp add: filled_def)
  show ?thesis
    using True ch
    by (simp add: bufferToWave_def h ws sample_bytes_def frame_bytes_def view_filled_0
        concat_map_Nil)
next
  case False
  define c where "c = numberOfChannels b"
  define hb where "hb = header_bytes c (sampleRate b) (len * c * 2)"
  have c: "0 < c" using False by (simp add: c_def)
  have h: "write_header c (sampleRate b) (len * c * 2)
             \<lparr>view = replicate (44 + len * c * 2) 0, pos = 0\<rparr>
           = Inr (filled hb (len * c * 2))"
    using write_header_filled [of c "sampleRate b" "len * c * 2"] by (simp add: filled_def hb_def)
  have m: "len * c * 2 = len * (2 * c)" by simp
  have "length hb + len * (2 * c) = 44 + len * (2 * c)"
    by (simp add: hb_def length_header_bytes)
  then have ws0: "write_samples (channelData b) c (44 + len * (2 * c)) 0 (filled hb (len * (2 * c)))
        = Some (Inr (filled (hb @ concat (map (\<lambda>f. frame_bytes (channelData b) f [0..<c])
             [0..<0 + len])) 0))"
    by (rule write_samples_filled [OF c])
  have sb: "sample_bytes (channelData b) len =
            concat (map (\<lambda>f. frame_bytes (channelData b) f [0..<c]) [0..<0 + len])"
    by (simp add: sample_bytes_def c_def numberOfChannels_def)
  have ws: "write_samples (channelData b) c (44 + len * c * 2) 0 (filled hb (len * c * 2))
        = Some (Inr (filled (hb @ sample_bytes (channelData b) len) 0))"
    unfolding sb m by (rule ws0)
  show ?thesis
    unfolding bufferToWave_def Let_def c_def [symmetric] h
    by (simp add: ws [unfolded hb_def] hb_def view_filled_0)
qed

lemma digit_as_bits: "x div 2 ^ n mod 256 = take_bit 8 (drop_bit n (x::nat))"
  by (simp add: take_bit_eq_mod drop_bit_eq_div)

lemma ucast_drop_bit_nat32:
  "n \<le> 24 \<Longrightarrow> (ucast (drop_bit n (word_of_nat x :: 32 word)) :: 8 word) = of_nat (x div 2 ^ n mod 256)"
  unfolding digit_as_bits
  by (rule bit_word_eqI) (auto simp add: bit_simps)

lemma ucast_drop_bit_nat16:
  "n \<le> 8 \<Longrightarrow> (ucast (drop_bit n (word_of_nat x :: 16 word)) :: 8 word) = of_nat (x div 2 ^ n mod 256)"
  unfolding digit_as_bits
  by (rule bit_word_eqI) (auto simp add: bit_simps)

lemma upt_4: "[0..<4] = [0, 1, 2, 3]"
  by (simp add: upt_rec)

lemma upt_2: "[0..<2] = [0, 1]"
  by (simp add: upt_rec)

lemma le32_nat: "le32 (word_of_nat x) = le_bytes 4 x"
  using ucast_drop_bit_nat32 [of 0 x] ucast_drop_bit_nat32 [of 8 x]
    ucast_drop_bit_nat32 [of 16 x] ucast_drop_bit_nat32 [of 24 x]
  by (simp add: le32_def le_bytes_def upt_4)

lemma le16_nat: "le16 (word_of_nat x) = le_bytes 2 x"
  using ucast_drop_bit_nat16 [of 0 x] ucast_drop_bit_nat16 [of 8 x]
  by (simp add: le16_def le_bytes_def upt_2)

lemma word16_of_int_nat: "(word_of_int v :: 16 word) = word_of_nat (nat (v mod 65536))"
proof -
  have "(word_of_nat (nat (v mod 65536)) :: 16 word) = word_of_int (v mod 65536)"
    by simp
  also have "\<dots> = word_of_int v"
    by (simp add: word_of_int_eq_iff take_bit_eq_mod)
  finally show ?thesis by simp
qed

lemma le16_int: "le16 (word_of_int v) = le_bytes 2 (nat (v mod 65536))"
  by (simp only: word16_of_int_nat le16_nat)

lemma tag_RIFF: "le_bytes 4 0x46464952 = ascii ''RIFF''"
  by (simp add: le_bytes_def ascii_def upt_4)

lemma tag_WAVE: "le_bytes 4 0x45564157 = ascii ''WAVE''"
  by (simp add: le_bytes_def ascii_def upt_4)

lemma tag_fmt: "le_bytes 4 0x20746d66 = ascii ''fmt ''"
  by (simp add: le_bytes_def ascii_def upt_4)

lemma tag_data: "le_bytes 4 0x61746164 = ascii ''data''"
  by (simp add: le_bytes_def ascii_def upt_4)

lemma header_bytes_canonical: "header_bytes c r (n * c * 2) = canonical_header c r n"
proof -
  have a: "n * c * 2 + 36 = 36 + n * c * 2" "r * 2 * c = r * c * 2" by simp_all
  show ?thesis
    unfolding header_bytes_def canonical_header_def le32_nat le16_nat a
      tag_RIFF tag_WAVE tag_fmt tag_data ..
qed

lemma length_le_bytes [simp]: "length (le_bytes k x) = k"
  by (simp add: le_bytes_def)

lemma length_canonical_header: "length (canonical_header c r n) = 44"
  by (simp add: canonical_header_def ascii_def)

lemma sample_bytes_interleaved:
  "sample_bytes channels n =
     interleaved (\<lambda>channel frame. wav_sample (channels ! channel) frame) (length channels) n"
  by (simp add: sample_bytes_def frame_bytes_def interleaved_def le16_int)

text \<open>
  Claim C2. For every buffer and every frame count handed to it, bufferToWave returns
  (it never throws and its loop ends) the 44 bytes of the canonical header, every
  multi-byte field little-endian, followed by the quantized samples frame by frame with
  the channels of a frame in channel order. A field holds the low bytes of its value.
\<close>

theorem bufferToWave_layout:
  "bufferToWave b n =
     Some (Inr (canonical_header (numberOfChannels b) (sampleRate b) n @
                interleaved (\<lambda>channel frame. wav_sample (channelData b ! channel) frame)
                  (numberOfChannels b) n)) \<and>
   length (canonical_header (numberOfChannels b) (sampleRate b) n) = 44"
  by (simp add: bufferToWave_bytes header_bytes_canonical sample_bytes_interleaved
      length_canonical_header numberOfChannels_def)

lemma length_concat_blocks:
  "(\<And>i. i < m \<Longrightarrow> length (g i) = k) \<Longrightarrow> length (concat (map g [0..<m])) = m * k"
  by (induction m) simp_all

lemma nth_concat_blocks:
  assumes "\<And>i. i < m \<Longrightarrow> length (g i) = k" and "i < m" and "j < k"
  shows "concat (map g [0..<m]) ! (i * k + j) = g i ! j"
  using assms
proof (induction m)
  case 0
  then show ?case by simp
next
  case (Suc m)
  have len: "length (concat (map g [0..<m])) = m * k"
    using Suc.prems(1) by (intro length_concat_blocks) simp
  show ?case
  proof (cases "i < m")
    case True
    then have "i * k + j < m * k"
    proof -
      have "i * k + j < i * k + k" using Suc.prems(3) by simp
      also have "\<dots> = Suc i * k" by simp
      also have "\<dots> \<le> m * k" using True by (intro mult_le_mono1) simp
      finally show ?thesis .
    qed
    then show ?thesis
      using Suc.IH [OF _ True Suc.prems(3)] Suc.prems(1) len by (simp add: nth_append)
  next
    case False
    then have "i = m" using Suc.prems(2) by simp
    then show ?thesis using len by (simp add: nth_append)
  qed
qed

lemma sample_bytes_nth:
  assumes "f < len" and "ch < length channels" and "j < 2"
  shows "sample_bytes channels len ! ((f * length channels + ch) * 2 + j) =
         le16 (word_of_int (wav_sample (channels ! ch) f)) ! j"
proof -
  let ?c = "length channels"
  have fr: "frame_bytes channels f [0..<?c] ! (ch * 2 + j) =
            le16 (word_of_int (wav_sample (channels ! ch) f)) ! j"
    unfolding frame_bytes_def using assms(2,3) by (intro nth_concat_blocks) simp_all
  have "ch * 2 + j < Suc ch * 2" using assms(3) by simp
  also have "\<dots> \<le> ?c * 2" using assms(2) by (intro mult_le_mono1) simp
  finally have inner: "ch * 2 + j < 2 * ?c" by simp
  have outer: "sample_bytes channels len ! (f * (2 * ?c) + (ch * 2 + j)) =
        frame_bytes channels f [0..<?c] ! (ch * 2 + j)"
    unfolding sample_bytes_def using assms(1) inner by (intro nth_concat_blocks) simp_all
  have idx: "(f * ?c + ch) * 2 + j = f * (2 * ?c) + (ch * 2 + j)"
    by (simp add: algebra_simps)
  show ?thesis unfolding idx outer fr ..
qed

lemma length_sample_bytes: "length (sample_bytes channels len) = len * length channels * 2"
proof -
  have "length (sample_bytes channels len) = len * (2 * length channels)"
    unfolding sample_bytes_def by (intro length_concat_blocks) simp
  then show ?thesis by simp
qed

text \<open>What the two quantizing statements compute on a stored finite sample: the scale
  is 32768 below \<open>-0.5\<close> and 32767 from there on.\<close>

lemma sint32_scaled:
  "- 32768 \<le> k \<Longrightarrow> k \<le> 32768 \<Longrightarrow> sint (word_of_int k :: 32 word) = k"
  by (simp add: sint_sbintrunc' signed_take_bit_int_eq_self)

lemma wav_sample_finite:
  assumes "f < length ch" and "ch ! f = Fin x"
  shows "wav_sample ch f =
           (let c = max (- 1) (min 1 x)
            in if c < - 1 / 2 then trunc (c * 32768) else trunc (c * 32767))"
proof -
  define c where "c = max (- 1) (min 1 x)"
  have cb: "- 1 \<le> c" "c \<le> 1" by (simp_all add: c_def)
  have b1: "- 32768 \<le> trunc (c * of_int 32768) \<and> trunc (c * of_int 32768) \<le> 32768"
    using cb by (intro trunc_scaled_bounds) simp_all
  have b2: "- 32767 \<le> trunc (c * of_int 32767) \<and> trunc (c * of_int 32767) \<le> 32767"
    using cb by (intro trunc_scaled_bounds) simp_all
  have s1: "sint (word_of_int (trunc (c * 32768)) :: 32 word) = trunc (c * 32768)"
    using b1 by (intro sint32_scaled) simp_all
  have s2: "sint (word_of_int (trunc (c * 32767)) :: 32 word) = trunc (c * 32767)"
    using b2 by (intro sint32_scaled) simp_all
  have "math_max (Fin (- 1)) (math_min (Fin 1) (or_zero (typed_get ch f))) = Fin c"
    using assms by (cases "x = 0") (simp_all add: typed_get_def c_def max.commute min.commute)
  then show ?thesis
    unfolding wav_sample_def Let_def c_def [symmetric]
    using s1 s2 by (auto simp add: less_diff_eq)
qed

lemma wav_sample_beyond: "length ch \<le> f \<Longrightarrow> wav_sample ch f = 0"
  by (simp add: wav_sample_def typed_get_def trunc_def)

lemma wav_sample_NaN: "f < length ch \<Longrightarrow> ch ! f = NaN \<Longrightarrow> wav_sample ch f = 0"
  by (simp add: wav_sample_def typed_get_def trunc_def)

lemma wav_sample_PosInf: "f < length ch \<Longrightarrow> ch ! f = PosInf \<Longrightarrow> wav_sample ch f = 32767"
  by (simp add: wav_sample_def typed_get_def trunc_def)

lemma wav_sample_NegInf: "f < length ch \<Longrightarrow> ch ! f = NegInf \<Longrightarrow> wav_sample ch f = - 32768"
  by (simp add: wav_sample_def typed_get_def trunc_def)

lemma le16_values:
  "le16 0 = [0, 0]"
  "le16 32767 = [255, 127]"
  "le16 (- 32768) = [0, 128]"
  by (simp_all add: le16_def)

lemma wav_bytes_at:
  assumes "f < len" and "ch < length channels" and "j < 2" and "length hb = 44"
  shows "(hb @ sample_bytes channels len) ! (44 + (f * length channels + ch) * 2 + j) =
         le16 (word_of_int (wav_sample (channels ! ch) f)) ! j"
proof -
  have "(hb @ sample_bytes channels len) ! (44 + ((f * length channels + ch) * 2 + j)) =
        sample_bytes channels len ! ((f * length channels + ch) * 2 + j)"
    using assms(4) by (simp add: nth_append)
  then show ?thesis using sample_bytes_nth [OF assms(1,2,3)] by (simp add: add.assoc)
qed

text \<open>
  Claim C10, as the source has it. The stream has \<open>44 + len * numberOfChannels * 2\<close>
  bytes. A frame at or beyond the end of its channel array and a stored NaN are written
  as the two bytes of 0. A stored infinity is not: it is clamped, and written as 32767
  (\<open>FF 7F\<close>) or -32768 (\<open>00 80\<close>).
\<close>

theorem bufferToWave_length_and_fill:
  "\<exists>bytes. bufferToWave b len = Some (Inr bytes) \<and>
     length bytes = 44 + len * numberOfChannels b * 2 \<and>
     (\<forall>f ch. f < len \<and> ch < numberOfChannels b \<longrightarrow>
        ((length (channelData b ! ch) \<le> f \<or> channelData b ! ch ! f = NaN) \<longrightarrow>
           bytes ! (44 + (f * numberOfChannels b + ch) * 2) = 0 \<and>
           bytes ! (44 + (f * numberOfChannels b + ch) * 2 + 1) = 0) \<and>
        (f < length (channelData b ! ch) \<and> channelData b ! ch ! f = PosInf \<longrightarrow>
           bytes ! (44 + (f * numberOfChannels b + ch) * 2) = 255 \<and>
           bytes ! (44 + (f * numberOfChannels b + ch) * 2 + 1) = 127) \<and>
        (f < length (channelData b ! ch) \<and> channelData b ! ch ! f = NegInf \<longrightarrow>
           bytes ! (44 + (f * numberOfChannels b + ch) * 2) = 0 \<and>
           bytes ! (44 + (f * numberOfChannels b + ch) * 2 + 1) = 128))"
proof -
  define c where "c = numberOfChannels b"
  define hb where "hb = header_bytes c (sampleRate b) (len * c * 2)"
  define bytes where "bytes = hb @ sample_bytes (channelData b) len"
  have c: "c = length (channelData b)" by (simp add: c_def numberOfChannels_def)
  have hl: "length hb = 44" by (simp add: hb_def length_header_bytes)
  have r: "bufferToWave b len = Some (Inr bytes)"
    by (simp add: bytes_def hb_def c_def bufferToWave_bytes)
  have l: "length bytes = 44 + len * c * 2"
    by (simp add: bytes_def hl length_sample_bytes c)
  have at: "bytes ! (44 + (f * c + ch) * 2 + j) =
            le16 (word_of_int (wav_sample (channelData b ! ch) f)) ! j"
    if "f < len" "ch < c" "j < 2" for f ch j
    unfolding bytes_def c using that hl by (intro wav_bytes_at) (simp_all add: c)
  have fill: "((length (channelData b ! ch) \<le> f \<or> channelData b ! ch ! f = NaN) \<longrightarrow>
           bytes ! (44 + (f * c + ch) * 2) = 0 \<and> bytes ! (44 + (f * c + ch) * 2 + 1) = 0) \<and>
        (f < length (channelData b ! ch) \<and> channelData b ! ch ! f = PosInf \<longrightarrow>
           bytes ! (44 + (f * c + ch) * 2) = 255 \<and> bytes ! (44 + (f * c + ch) * 2 + 1) = 127) \<and>
        (f < length (channelData b ! ch) \<and> channelData b ! ch ! f = NegInf \<longrightarrow>
           bytes ! (44 + (f * c + ch) * 2) = 0 \<and> bytes ! (44 + (f * c + ch) * 2 + 1) = 128)"
    if fc: "f < len" "ch < c" for f ch
  proof (intro conjI impI)
    assume "length (channelData b ! ch) \<le> f \<or> channelData b ! ch ! f = NaN"
    then have w: "wav_sample (channelData b ! ch) f = 0"
      using wav_sample_beyond [of "channelData b ! ch" f] wav_sample_NaN [of f "channelData b ! ch"]
      by (cases "f < length (channelData b ! ch)") auto
    show "bytes ! (44 + (f * c + ch) * 2) = 0"
      using at [OF fc, of 0] by (simp add: w le16_values)
    show "bytes ! (44 + (f * c + ch) * 2 + 1) = 0"
      using at [OF fc, of 1] by (simp add: w le16_values)
  next
    assume "f < length (channelData b ! ch) \<and> channelData b ! ch ! f = PosInf"
    then have w: "wav_sample (channelData b ! ch) f = 32767" by (simp add: wav_sample_PosInf)
    show "bytes ! (44 + (f * c + ch) * 2) = 255"
      using at [OF fc, of 0] by (simp add: w le16_values)
    show "bytes ! (44 + (f * c + ch) * 2 + 1) = 127"
      using at [OF fc, of 1] by (simp add: w le16_values)
  next
    assume "f < length (channelData b ! ch) \<and> channelData b ! ch ! f = NegInf"
    then have w: "wav_sample (channelData b ! ch) f = - 32768" by (simp add: wav_sample_NegInf)
    show "bytes ! (44 + (f * c + ch) * 2) = 0"
      using at [OF fc, of 0] by (simp add: w le16_values)
    show "bytes ! (44 + (f * c + ch) * 2 + 1) = 128"
      using at [OF fc, of 1] by (simp add: w le16_values)
  qed
  show ?thesis
    unfolding c_def [symmetric] using r l fill by blast
qed

theorem bufferToWave_length_and_fill_witness:
  "\<exists>bytes. bufferToWave \<lparr>sampleRate = 8000, channelData = [[NaN], [PosInf]]\<rparr> 2 = Some (Inr bytes) \<and>
     length bytes = 52 \<and>
     bytes ! 44 = 0 \<and> bytes ! 45 = 0 \<and>
     bytes ! 46 = 255 \<and> bytes ! 47 = 127 \<and>
     bytes ! 48 = 0 \<and> bytes ! 49 = 0"
proof -
  let ?b = "\<lparr>sampleRate = 8000, channelData = [[NaN], [PosInf]]\<rparr>"
  have c: "numberOfChannels ?b = 2" by (simp add: numberOfChannels_def)
  from bufferToWave_length_and_fill [of ?b 2] obtain bytes where
    r: "bufferToWave ?b 2 = Some (Inr bytes)" and
    l: "length bytes = 44 + 2 * numberOfChannels ?b * 2" and
    f: "\<And>f ch. f < 2 \<and> ch < numberOfChannels ?b \<Longrightarrow>
        ((length (channelData ?b ! ch) \<le> f \<or> channelData ?b ! ch ! f = NaN) \<longrightarrow>
           bytes ! (44 + (f * numberOfChannels ?b + ch) * 2) = 0 \<and>
           bytes ! (44 + (f * numberOfChannels ?b + ch) * 2 + 1) = 0) \<and>
        (f < length (channelData ?b ! ch) \<and> channelData ?b ! ch ! f = PosInf \<longrightarrow>
           bytes ! (44 + (f * numberOfChannels ?b + ch) * 2) = 255 \<and>
           bytes ! (44 + (f * numberOfChannels ?b + ch) * 2 + 1) = 127) \<and>
        (f < length (channelData ?b ! ch) \<and> channelData ?b ! ch ! f = NegInf \<longrightarrow>
           bytes ! (44 + (f * numberOfChannels ?b + ch) * 2) = 0 \<and>
           bytes ! (44 + (f * numberOfChannels ?b + ch) * 2 + 1) = 128)"
    by blast
  have "bytes ! 44 = 0 \<and> bytes ! 45 = 0" using f [of 0 0] by (simp add: c)
  moreover have "bytes ! 46 = 255 \<and> bytes ! 47 = 127" using f [of 0 1] by (simp add: c)
  moreover have "bytes ! 48 = 0 \<and> bytes ! 49 = 0" using f [of 1 0] by (simp add: c)
  moreover have "length bytes = 52" using l by (simp add: c)
  ultimately show ?thesis using r by blast
qed

text \<open>
  Claim C10, as stated: every non-finite stored sample is written as 0. A mono buffer
  holding the single sample \<open>+Infinity\<close> is serialized with the sample bytes
  \<open>FF 7F\<close>, the value 32767.
\<close>

theorem bufferToWave_infinity_not_zero:
  "bufferToWave \<lparr>sampleRate = 8000, channelData = [[PosInf]]\<rparr> 1 =
     Some (Inr (canonical_header 1 8000 1 @ [255, 127])) \<and>
   wav_sample [PosInf] 0 = 32767"
proof -
  let ?b = "\<lparr>sampleRate = 8000, channelData = [[PosInf]]\<rparr>"
  have c: "numberOfChannels ?b = 1" by (simp add: numberOfChannels_def)
  have s: "sample_bytes (channelData ?b) 1 = [255, 127]"
    by (simp add: sample_bytes_def frame_bytes_def wav_sample_PosInf le16_values)
  have "bufferToWave ?b 1 =
        Some (Inr (header_bytes (numberOfChannels ?b) (sampleRate ?b) (1 * numberOfChannels ?b * 2)
                   @ sample_bytes (channelData ?b) 1))"
    by (rule bufferToWave_bytes)
  then show ?thesis unfolding header_bytes_canonical s c by (simp add: wav_sample_PosInf)
qed

section \<open>Merging buffers\<close>

















section \<open>The frame count of the speed change\<close>

lemma buffer_length_rendered:
  "0 < ctx_channels ctx \<Longrightarrow> buffer_length (startRendering rendered ctx) = ctx_length ctx"
  by (simp add: startRendering_def buffer_length_def upt_conv_Cons)

text \<open>
  Claim C9, as the source has it. For a speed above 0 and below \<open>2^24\<close> (the slider
  gives 0.5 to 3) and a quotient of the frame count by the speed of at most
  \<open>2^32 - 1\<close>, the speed change succeeds, and its output has the channel count and the
  sample rate of its input and as many frames as \<open>Math.ceil\<close> makes of the quotient
  computed in double precision: the ceiling of the exact quotient, or one less.
\<close>

theorem changeSpeed_frame_count:
  assumes "valid_buffer b" and "0 < k" and "k < 2 ^ 24"
    and "of_nat (buffer_length b) / k \<le> 2 ^ 32 - 1"
  shows "\<exists>out d. changeSpeed rendered b k = Inr out \<and>
           js_div (Fin (of_nat (buffer_length b))) (Fin k) = Fin d \<and>
           int (buffer_length out) = \<lceil>d\<rceil> \<and>
           \<lceil>of_nat (buffer_length b) / k\<rceil> - 1 \<le> \<lceil>d\<rceil> \<and>
           \<lceil>d\<rceil> \<le> \<lceil>of_nat (buffer_length b) / k\<rceil> \<and>
           sampleRate out = sampleRate b \<and> numberOfChannels out = numberOfChannels b"
proof -
  define q :: rat where "q = of_nat (buffer_length b) / k"
  define M where "M = \<lceil>q\<rceil>"
  have len: "0 < buffer_length b" and nch: "0 < numberOfChannels b" and rate: "0 < sampleRate b"
    using assms(1) by (simp_all add: valid_buffer_def numberOfChannels_def)
  have q: "0 < q" using len assms(2) by (simp add: q_def)
  have "1 / 2 ^ 1074 \<le> (1::rat) / 2 ^ 24" by simp
  also have "\<dots> \<le> 1 / k" using assms(2,3) by (simp add: frac_le)
  also have "\<dots> \<le> q"
    using len assms(2) by (simp add: q_def divide_right_mono)
  finally have tiny: "1 / 2 ^ 1074 \<le> q" .
  have N: "of_int (M - 1) \<le> q" unfolding M_def by linarith
  have Mq: "q \<le> of_int M" unfolding M_def by (rule le_of_int_ceiling)
  have "q \<le> of_int (2 ^ 32 - 1)" using assms(4) by (simp add: q_def)
  then have M32: "M \<le> 2 ^ 32 - 1" unfolding M_def by (simp only: ceiling_le_iff)
  have "q \<le> 2 ^ 32 - 1" using assms(4) by (simp add: q_def)
  also have "(2 ^ 32 - 1 :: rat) < 2 ^ 53" by simp
  finally have q53: "q < 2 ^ 53" .
  obtain d where d: "round_to_double q = Fin d" "0 < d" "of_int (M - 1) \<le> d" "d \<le> of_int M"
    using round_to_double_between [OF q N Mq q53 tiny] by blast
  obtain v where fl: "to_float (Fin k) = Inr (Fin v)"
    using to_float_ok [OF assms(2,3)] by blast
  have c1: "1 \<le> \<lceil>d\<rceil>" using d(2) by (simp add: less_ceiling_iff [symmetric] flip: zero_less_ceiling)
  have c2: "M - 1 \<le> \<lceil>d\<rceil>"
  proof -
    have "of_int (M - 1) \<le> d" by (rule d(3))
    also have "d \<le> of_int \<lceil>d\<rceil>" by (rule le_of_int_ceiling)
    finally show ?thesis by (simp only: of_int_le_iff)
  qed
  have c3: "\<lceil>d\<rceil> \<le> M" using d(4) by (simp only: ceiling_le_iff)
  have dv: "js_div (Fin (of_nat (buffer_length b))) (Fin k) = Fin d"
    using assms(2) d(1) by (simp add: q_def)
  have "\<lceil>d\<rceil> mod 2 ^ 32 = \<lceil>d\<rceil>"
    using c1 c3 M32 by (intro mod_pos_pos_trivial) linarith+
  then have u: "to_uint32 (math_ceil (Fin d)) = nat \<lceil>d\<rceil>"
    by (simp add: trunc_of_int)
  have upos: "0 < nat \<lceil>d\<rceil>" using c1 by simp
  define ctx where "ctx = \<lparr>ctx_channels = numberOfChannels b, ctx_length = nat \<lceil>d\<rceil>,
                              ctx_rate = sampleRate b\<rparr>"
  have nc: "new_OfflineAudioContext (numberOfChannels b) (math_ceil (Fin d)) (sampleRate b) = Inr ctx"
    unfolding new_OfflineAudioContext_def u using nch rate upos by (simp add: ctx_def)
  have r: "changeSpeed rendered b k = Inr (startRendering rendered ctx)"
    unfolding changeSpeed_def Let_def dv nc fl by (simp add: and_then_def connect_def)
  have l: "int (buffer_length (startRendering rendered ctx)) = \<lceil>d\<rceil>"
    using nch c1 by (simp add: buffer_length_rendered ctx_def)
  have s: "sampleRate (startRendering rendered ctx) = sampleRate b"
    "numberOfChannels (startRendering rendered ctx) = numberOfChannels b"
    by (simp_all add: startRendering_def ctx_def numberOfChannels_def)
  show ?thesis
    using r dv l c2 c3 s unfolding M_def q_def by blast
qed

theorem changeSpeed_frame_count_witness:
  "valid_buffer \<lparr>sampleRate = 8000, channelData = [[Fin 0, Fin 0, Fin 0]]\<rparr> \<and>
   (0::rat) < 5404319552844595 / 9007199254740992 \<and>
   (5404319552844595 / 9007199254740992 :: rat) < 2 ^ 24 \<and>
   of_nat (buffer_length \<lparr>sampleRate = 8000, channelData = [[Fin 0, Fin 0, Fin 0]]\<rparr>)
     / (5404319552844595 / 9007199254740992 :: rat) \<le> 2 ^ 32 - 1 \<and>
   (\<exists>out d. changeSpeed (\<lambda>c i. Fin 0) \<lparr>sampleRate = 8000, channelData = [[Fin 0, Fin 0, Fin 0]]\<rparr>
                (5404319552844595 / 9007199254740992) = Inr out \<and>
            js_div (Fin (of_nat (buffer_length
                \<lparr>sampleRate = 8000, channelData = [[Fin 0, Fin 0, Fin 0]]\<rparr>)))
              (Fin (5404319552844595 / 9007199254740992)) = Fin d \<and>
            int (buffer_length out) = \<lceil>d\<rceil> \<and>
            \<lceil>of_nat (buffer_length \<lparr>sampleRate = 8000, channelData = [[Fin 0, Fin 0, Fin 0]]\<rparr>)
               / (5404319552844595 / 9007199254740992 :: rat)\<rceil> - 1 \<le> \<lceil>d\<rceil> \<and>
            \<lceil>d\<rceil> \<le> \<lceil>of_nat (buffer_length
                \<lparr>sampleRate = 8000, channelData = [[Fin 0, Fin 0, Fin 0]]\<rparr>)
               / (5404319552844595 / 9007199254740992 :: rat)\<rceil> \<and>
            sampleRate out = sampleRate \<lparr>sampleRate = 8000, channelData = [[Fin 0, Fin 0, Fin 0]]\<rparr> \<and>
            numberOfChannels out
              = numberOfChannels \<lparr>sampleRate = 8000, channelData = [[Fin 0, Fin 0, Fin 0]]\<rparr>)"
proof -
  let ?b = "\<lparr>sampleRate = 8000, channelData = [[Fin 0, Fin 0, Fin 0]]\<rparr>"
  let ?k = "5404319552844595 / 9007199254740992 :: rat"
  have v: "valid_buffer ?b" by (simp add: valid_buffer_def buffer_length_def)
  have k: "0 < ?k" "?k < 2 ^ 24" by simp_all
  have q: "of_nat (buffer_length ?b) / ?k \<le> 2 ^ 32 - 1" by (simp add: buffer_length_def)
  show ?thesis
    using changeSpeed_frame_count [OF v k q, of "\<lambda>c i. Fin 0"] v k q by blast
qed

lemma double_point_6: "round_to_double (6 / 10) = Fin (5404319552844595 / 9007199254740992)"
  by code_simp

lemma js_div_3_by_double_point_6:
  "js_div (Fin (of_nat 3)) (Fin (5404319552844595 / 9007199254740992)) = Fin 5"
  by code_simp

lemma to_uint32_5: "to_uint32 (math_ceil (Fin 5)) = 5"
  by (simp add: trunc_def)

text \<open>
  Claim C9, as stated. At the slider position 0.6 the speed is the double nearest to
  \<open>0.6\<close>, a little below it. The exact quotient of 3 frames by that speed is a little
  above 5, with ceiling 6; in double precision the quotient is 5, and the output has 5
  frames.
\<close>

theorem changeSpeed_rounds_below_ceiling:
  "changeSpeed (\<lambda>c i. Fin 0) \<lparr>sampleRate = 8000, channelData = [[Fin 0, Fin 0, Fin 0]]\<rparr>
     (5404319552844595 / 9007199254740992)
     = Inr \<lparr>sampleRate = 8000, channelData = [[Fin 0, Fin 0, Fin 0, Fin 0, Fin 0]]\<rparr> \<and>
   \<lceil>(3::rat) / (5404319552844595 / 9007199254740992)\<rceil> = 6 \<and>
   round_to_double (6 / 10) = Fin (5404319552844595 / 9007199254740992)"
proof (intro conjI)
  let ?b = "\<lparr>sampleRate = 8000, channelData = [[Fin 0, Fin 0, Fin 0]]\<rparr>"
  show "round_to_double (6 / 10) = Fin (5404319552844595 / 9007199254740992)"
    by (rule double_point_6)
  show "\<lceil>(3::rat) / (5404319552844595 / 9007199254740992)\<rceil> = 6"
    by (rule ceiling_unique) simp_all
  have l: "buffer_length ?b = 3" by (simp add: buffer_length_def)
  have n: "numberOfChannels ?b = Suc 0" by (simp add: numberOfChannels_def)
  have r: "sampleRate ?b = 8000" by simp
  have c: "new_OfflineAudioContext (Suc 0) (math_ceil (Fin 5)) 8000
             = Inr \<lparr>ctx_channels = Suc 0, ctx_length = 5, ctx_rate = 8000\<rparr>"
    unfolding new_OfflineAudioContext_def to_uint32_5 by simp
  obtain v where f: "to_float (Fin (5404319552844595 / 9007199254740992)) = Inr (Fin v)"
    using to_float_ok [of "5404319552844595 / 9007199254740992"] by auto
  have s: "startRendering (\<lambda>c i. Fin 0) \<lparr>ctx_channels = Suc 0, ctx_length = 5, ctx_rate = 8000\<rparr>
             = \<lparr>sampleRate = 8000, channelData = [[Fin 0, Fin 0, Fin 0, Fin 0, Fin 0]]\<rparr>"
    by (simp add: startRendering_def upt_rec)
  show "changeSpeed (\<lambda>c i. Fin 0) ?b (5404319552844595 / 9007199254740992)
     = Inr \<lparr>sampleRate = 8000, channelData = [[Fin 0, Fin 0, Fin 0, Fin 0, Fin 0]]\<rparr>"
    unfolding changeSpeed_def Let_def l n r js_div_3_by_double_point_6 c f
    by (simp add: and_then_def connect_def s)
qed

end
